theory Spec2Isabelle
  imports Complex_Main "HOL-Library.Word"
begin

unbundle bit_operations_syntax

section \<open>Error translation (curand\_helper.hpp, lines 36--150)\<close>

subsection \<open>Status enumerations\<close>

text \<open>
  A status is the numeric value of a C enumeration (\<open>curandStatus_t\<close>,
  \<open>cudaError_t\<close>). The enumerators are declared in the vendor headers
  \<open>curand.h\<close> and \<open>cuda.h\<close>, which the repository only includes; their numeric
  values are therefore a parameter: a record with one field per enumerator that the
  helper names. A \<open>switch\<close> compiles only when its case labels are pairwise distinct,
  which is the hypothesis \<open>distinct (curand_labels C)\<close> below.
\<close>

type_synonym curandStatus_t = int
type_synonym cudaError_t = int

record curand_codes =
  CURAND_STATUS_SUCCESS :: curandStatus_t
  CURAND_STATUS_VERSION_MISMATCH :: curandStatus_t
  CURAND_STATUS_NOT_INITIALIZED :: curandStatus_t
  CURAND_STATUS_ALLOCATION_FAILED :: curandStatus_t
  CURAND_STATUS_TYPE_ERROR :: curandStatus_t
  CURAND_STATUS_OUT_OF_RANGE :: curandStatus_t
  CURAND_STATUS_LENGTH_NOT_MULTIPLE :: curandStatus_t
  CURAND_STATUS_DOUBLE_PRECISION_REQUIRED :: curandStatus_t
  CURAND_STATUS_LAUNCH_FAILURE :: curandStatus_t
  CURAND_STATUS_PREEXISTING_FAILURE :: curandStatus_t
  CURAND_STATUS_INITIALIZATION_FAILED :: curandStatus_t
  CURAND_STATUS_ARCH_MISMATCH :: curandStatus_t
  CURAND_STATUS_INTERNAL_ERROR :: curandStatus_t

record cuda_codes =
  cudaSuccess :: cudaError_t
  cudaErrorNotPermitted :: cudaError_t
  cudaErrorIncompatibleDriverContext :: cudaError_t
  cudaErrorInvalidDevice :: cudaError_t
  cudaErrorInvalidValue :: cudaError_t
  cudaErrorMemoryAllocation :: cudaError_t
  cudaErrorLaunchOutOfResources :: cudaError_t

text \<open>The case labels of the two \<open>switch\<close> statements, in source order.\<close>

definition curand_labels :: "curand_codes \<Rightarrow> curandStatus_t list" where
  "curand_labels C =
     [CURAND_STATUS_SUCCESS C, CURAND_STATUS_VERSION_MISMATCH C,
      CURAND_STATUS_NOT_INITIALIZED C, CURAND_STATUS_ALLOCATION_FAILED C,
      CURAND_STATUS_TYPE_ERROR C, CURAND_STATUS_OUT_OF_RANGE C,
      CURAND_STATUS_LENGTH_NOT_MULTIPLE C, CURAND_STATUS_DOUBLE_PRECISION_REQUIRED C,
      CURAND_STATUS_LAUNCH_FAILURE C, CURAND_STATUS_PREEXISTING_FAILURE C,
      CURAND_STATUS_INITIALIZATION_FAILED C, CURAND_STATUS_ARCH_MISMATCH C,
      CURAND_STATUS_INTERNAL_ERROR C]"

definition cuda_labels :: "cuda_codes \<Rightarrow> cudaError_t list" where
  "cuda_labels D =
     [cudaSuccess D, cudaErrorNotPermitted D, cudaErrorIncompatibleDriverContext D,
      cudaErrorInvalidDevice D, cudaErrorInvalidValue D, cudaErrorMemoryAllocation D,
      cudaErrorLaunchOutOfResources D]"

text \<open>
  The values that \<open>curand.h\<close> (cuRAND 10/11) and \<open>driver_types.h\<close> (CUDA 11) give
  the enumerators; used only to instantiate the theorems at a concrete header.
\<close>

definition curand_h :: curand_codes where
  "curand_h =
     \<lparr>CURAND_STATUS_SUCCESS = 0, CURAND_STATUS_VERSION_MISMATCH = 100,
      CURAND_STATUS_NOT_INITIALIZED = 101, CURAND_STATUS_ALLOCATION_FAILED = 102,
      CURAND_STATUS_TYPE_ERROR = 103, CURAND_STATUS_OUT_OF_RANGE = 104,
      CURAND_STATUS_LENGTH_NOT_MULTIPLE = 105,
      CURAND_STATUS_DOUBLE_PRECISION_REQUIRED = 106,
      CURAND_STATUS_LAUNCH_FAILURE = 201, CURAND_STATUS_PREEXISTING_FAILURE = 202,
      CURAND_STATUS_INITIALIZATION_FAILED = 203, CURAND_STATUS_ARCH_MISMATCH = 204,
      CURAND_STATUS_INTERNAL_ERROR = 999\<rparr>"

definition cuda_h :: cuda_codes where
  "cuda_h =
     \<lparr>cudaSuccess = 0, cudaErrorNotPermitted = 800,
      cudaErrorIncompatibleDriverContext = 302, cudaErrorInvalidDevice = 101,
      cudaErrorInvalidValue = 1, cudaErrorMemoryAllocation = 2,
      cudaErrorLaunchOutOfResources = 701\<rparr>"

subsection \<open>The two lookup functions\<close>

text \<open>
  \<open>curand_error::curand_error_map\<close> (lines 38--69): a \<open>switch\<close> over the status
  with one \<open>return\<close> per label and a \<open>default\<close>. The first matching label wins.
\<close>

definition curand_error_map :: "curand_codes \<Rightarrow> curandStatus_t \<Rightarrow> string" where
  "curand_error_map C error =
     (if error = CURAND_STATUS_SUCCESS C then ''CURAND_STATUS_SUCCESS''
      else if error = CURAND_STATUS_VERSION_MISMATCH C then ''CURAND_STATUS_VERSION_MISMATCH''
      else if error = CURAND_STATUS_NOT_INITIALIZED C then ''CURAND_STATUS_NOT_INITIALIZED''
      else if error = CURAND_STATUS_ALLOCATION_FAILED C then ''CURAND_STATUS_ALLOCATION_FAILED''
      else if error = CURAND_STATUS_TYPE_ERROR C then ''CURAND_STATUS_TYPE_ERROR''
      else if error = CURAND_STATUS_OUT_OF_RANGE C then ''CURAND_STATUS_OUT_OF_RANGE''
      else if error = CURAND_STATUS_LENGTH_NOT_MULTIPLE C
        then ''CURAND_STATUS_LENGTH_NOT_MULTIPLE''
      else if error = CURAND_STATUS_DOUBLE_PRECISION_REQUIRED C
        then ''CURAND_STATUS_DOUBLE_PRECISION_REQUIRED''
      else if error = CURAND_STATUS_LAUNCH_FAILURE C then ''CURAND_STATUS_LAUNCH_FAILURE''
      else if error = CURAND_STATUS_PREEXISTING_FAILURE C
        then ''CURAND_STATUS_PREEXISTING_FAILURE''
      else if error = CURAND_STATUS_INITIALIZATION_FAILED C
        then ''CURAND_STATUS_INITIALIZATION_FAILED''
      else if error = CURAND_STATUS_ARCH_MISMATCH C then ''CURAND_STATUS_ARCH_MISMATCH''
      else if error = CURAND_STATUS_INTERNAL_ERROR C then ''CURAND_STATUS_INTERNAL_ERROR''
      else ''<unknown>'')"

text \<open>\<open>cuda_error::cuda_error_map\<close> (lines 97--115).\<close>

definition cuda_error_map :: "cuda_codes \<Rightarrow> cudaError_t \<Rightarrow> string" where
  "cuda_error_map D error =
     (if error = cudaSuccess D then ''cudaSuccess''
      else if error = cudaErrorNotPermitted D then ''cudaErrorNotPermitted''
      else if error = cudaErrorIncompatibleDriverContext D
        then ''cudaErrorIncompatibleDriverContext''
      else if error = cudaErrorInvalidDevice D then ''cudaErrorInvalidDevice''
      else if error = cudaErrorInvalidValue D then ''cudaErrorInvalidValue''
      else if error = cudaErrorMemoryAllocation D then ''cudaErrorMemoryAllocation''
      else if error = cudaErrorLaunchOutOfResources D then ''cudaErrorLaunchOutOfResources''
      else ''<unknown>'')"

subsection \<open>The two exception classes\<close>

text \<open>
  Each class derives from \<open>std::runtime_error\<close>, whose \<open>what()\<close> is the string the
  constructor passes up, and adds the field \<open>error_number\<close>. The constructor
  (lines 77--80 and 122--125) passes \<open>message + std::string(map(result))\<close> and stores
  \<open>static_cast<int>(result)\<close>; on the numeric value of an enumeration the cast is the
  identity.
\<close>

record curand_error_obj =
  curand_what :: string
  curand_error_number :: int

record cuda_error_obj =
  cuda_what :: string
  cuda_error_number :: int

definition static_cast_int :: "int \<Rightarrow> int" where
  "static_cast_int v = v"

definition curand_error :: "curand_codes \<Rightarrow> string \<Rightarrow> curandStatus_t \<Rightarrow> curand_error_obj" where
  "curand_error C message result =
     \<lparr>curand_what = message @ curand_error_map C result,
      curand_error_number = static_cast_int result\<rparr>"

definition cuda_error :: "cuda_codes \<Rightarrow> string \<Rightarrow> cudaError_t \<Rightarrow> cuda_error_obj" where
  "cuda_error D message error =
     \<lparr>cuda_what = message @ cuda_error_map D error,
      cuda_error_number = static_cast_int error\<rparr>"

text \<open>\<open>getErrorNumber\<close> (lines 90--92 and 135--137) returns the stored field.\<close>

definition curand_getErrorNumber :: "curand_error_obj \<Rightarrow> int" where
  "curand_getErrorNumber e = curand_error_number e"

definition cuda_getErrorNumber :: "cuda_error_obj \<Rightarrow> int" where
  "cuda_getErrorNumber e = cuda_error_number e"

subsection \<open>The call macros\<close>

text \<open>
  \<open>CUDA_CALL(func, err, ...)\<close> (lines 140--144) runs the native call, stores its
  status in \<open>err\<close> and throws \<open>cuda_error(#func + " : ", err)\<close> when the status is
  not \<open>cudaSuccess\<close>; \<open>CURAND_CALL\<close> (lines 146--150) is the same for cuRAND. The
  native call is a function of the state of the device and returns its status with
  the new state; \<open>func_name\<close> is the stringified \<open>#func\<close>. A throw is \<open>Inl\<close>;
  falling through the \<open>if\<close> is \<open>Inr\<close> with the assigned status and the state.
\<close>

definition CUDA_CALL ::
  "cuda_codes \<Rightarrow> string \<Rightarrow> ('s \<Rightarrow> cudaError_t \<times> 's) \<Rightarrow> 's \<Rightarrow> cuda_error_obj + (cudaError_t \<times> 's)" where
  "CUDA_CALL D func_name func s =
     (let (err, s') = func s
      in if err \<noteq> cudaSuccess D then Inl (cuda_error D (func_name @ '' : '') err)
         else Inr (err, s'))"

definition CURAND_CALL ::
  "curand_codes \<Rightarrow> string \<Rightarrow> ('s \<Rightarrow> curandStatus_t \<times> 's) \<Rightarrow> 's
     \<Rightarrow> curand_error_obj + (curandStatus_t \<times> 's)" where
  "CURAND_CALL C func_name func s =
     (let (status, s') = func s
      in if status \<noteq> CURAND_STATUS_SUCCESS C
         then Inl (curand_error C (func_name @ '' : '') status)
         else Inr (status, s'))"

section \<open>Floating point: IEEE 754 binary interchange formats\<close>

text \<open>
  The kernels are templates over \<open>T\<close>, instantiated at \<open>float\<close> and \<open>double\<close>.
  A value of such a type is its bit pattern, a machine word: one sign bit, then
  \<open>exp_bits\<close> bits of biased exponent, then \<open>frac_bits\<close> bits of fraction. The
  operators \<open>*\<close>, \<open>+\<close>, \<open>-\<close> of the source are the IEEE 754 operations in the
  default rounding mode (round to nearest, ties to even), each rounded on its own;
  \<open><\<close> and \<open>>\<close> are the IEEE comparisons, false whenever an operand is a NaN.
  A compiler may contract \<open>v * (b - a) + a\<close> into one fused multiply-add, which
  rounds once; where the product is exact, as at the concrete inputs evaluated below,
  the two ways of rounding give the same bits.
\<close>

record format =
  frac_bits :: nat
  exp_bits :: nat

definition binary32 :: format where
  "binary32 = \<lparr>frac_bits = 23, exp_bits = 8\<rparr>"

definition binary64 :: format where
  "binary64 = \<lparr>frac_bits = 52, exp_bits = 11\<rparr>"

definition f_sign :: "format \<Rightarrow> 'a::len word \<Rightarrow> bool" where
  "f_sign F x = bit x (frac_bits F + exp_bits F)"

definition f_exp :: "format \<Rightarrow> 'a::len word \<Rightarrow> nat" where
  "f_exp F x = unat (take_bit (exp_bits F) (drop_bit (frac_bits F) x))"

definition f_frac :: "format \<Rightarrow> 'a::len word \<Rightarrow> int" where
  "f_frac F x = uint (take_bit (frac_bits F) x)"

definition exp_max :: "format \<Rightarrow> nat" where
  "exp_max F = 2 ^ exp_bits F - 1"

definition bias :: "format \<Rightarrow> nat" where
  "bias F = 2 ^ (exp_bits F - 1) - 1"

definition is_nan :: "format \<Rightarrow> 'a::len word \<Rightarrow> bool" where
  "is_nan F x = (f_exp F x = exp_max F \<and> f_frac F x \<noteq> 0)"

definition is_inf :: "format \<Rightarrow> 'a::len word \<Rightarrow> bool" where
  "is_inf F x = (f_exp F x = exp_max F \<and> f_frac F x = 0)"

definition is_finite :: "format \<Rightarrow> 'a::len word \<Rightarrow> bool" where
  "is_finite F x = (f_exp F x < exp_max F)"

definition is_zero :: "format \<Rightarrow> 'a::len word \<Rightarrow> bool" where
  "is_zero F x = (f_exp F x = 0 \<and> f_frac F x = 0)"

text \<open>
  The value of a finite number: \<open>frac * 2^(1 - bias - frac_bits)\<close> for a subnormal
  (exponent field 0), \<open>(2^frac_bits + frac) * 2^(e - bias - frac_bits)\<close> otherwise.
\<close>

definition f_mag :: "format \<Rightarrow> 'a::len word \<Rightarrow> rat" where
  "f_mag F x =
     of_int ((if f_exp F x = 0 then f_frac F x else 2 ^ frac_bits F + f_frac F x)
             * 2 ^ max 1 (f_exp F x))
       / of_int (2 ^ (bias F + frac_bits F))"

definition f_val :: "format \<Rightarrow> 'a::len word \<Rightarrow> rat" where
  "f_val F x = (if f_sign F x then - f_mag F x else f_mag F x)"

definition sign_bit :: "format \<Rightarrow> bool \<Rightarrow> 'a::len word" where
  "sign_bit F s = (if s then push_bit (frac_bits F + exp_bits F) 1 else 0)"

definition f_zero :: "format \<Rightarrow> bool \<Rightarrow> 'a::len word" where
  "f_zero F s = sign_bit F s"

definition f_inf :: "format \<Rightarrow> bool \<Rightarrow> 'a::len word" where
  "f_inf F s = sign_bit F s + word_of_int (int (exp_max F) * 2 ^ frac_bits F)"

text \<open>
  IEEE 754 leaves the sign and the payload of a NaN result open, and processors differ
  in them. \<open>f_nan\<close> is one quiet NaN, with the sign bit clear and the payload empty: an
  operation of the model that returns it stands for an operation of the code that
  returns some NaN, not necessarily this one. No property below depends on which.
\<close>

definition f_nan :: "format \<Rightarrow> 'a::len word" where
  "f_nan F = word_of_int (int (exp_max F) * 2 ^ frac_bits F + 2 ^ (frac_bits F - 1))"

text \<open>Rounding a non-negative rational to an integer, ties to even.\<close>

definition rne :: "rat \<Rightarrow> int" where
  "rne x =
     (let f = \<lfloor>x\<rfloor>; r = x - of_int f
      in if r < 1 / 2 then f else if 1 / 2 < r then f + 1
         else if even f then f else f + 1)"

text \<open>The floor of the binary logarithm of an integer, 0 below 2.\<close>

function log2i :: "int \<Rightarrow> nat" where
  "log2i k = (if k < 2 then 0 else Suc (log2i (k div 2)))"
  by pat_completeness auto
termination
  by (relation "measure nat") auto

declare log2i.simps [simp del]

text \<open>
  Rounding a rational to the nearest number of the format. \<open>e\<close> is the exponent field
  of the binade that holds \<open>\<bar>q\<bar>\<close> (1 for the subnormal range), \<open>sig\<close> the
  significand rounded to an integer; a significand that rounds up to
  \<open>2^(frac_bits + 1)\<close> carries into the exponent by the addition, and a result at or
  beyond the all-ones exponent is an infinity.
\<close>

definition f_round :: "format \<Rightarrow> rat \<Rightarrow> 'a::len word" where
  "f_round F q =
     (let m = \<bar>q\<bar>;
          e = max 1 (log2i \<lfloor>m * of_int (2 ^ bias F)\<rfloor>);
          sig = rne (m * of_int (2 ^ (bias F + frac_bits F)) / of_int (2 ^ e));
          bits = (int e - 1) * 2 ^ frac_bits F + sig
      in if int (exp_max F) * 2 ^ frac_bits F \<le> bits then f_inf F (q < 0)
         else sign_bit F (q < 0) + word_of_int bits)"

definition fneg :: "format \<Rightarrow> 'a::len word \<Rightarrow> 'a word" where
  "fneg F x = x XOR push_bit (frac_bits F + exp_bits F) 1"

definition fadd :: "format \<Rightarrow> 'a::len word \<Rightarrow> 'a word \<Rightarrow> 'a word" where
  "fadd F x y =
     (if is_nan F x \<or> is_nan F y then f_nan F
      else if is_inf F x then (if is_inf F y \<and> f_sign F x \<noteq> f_sign F y then f_nan F else x)
      else if is_inf F y then y
      else let q = f_val F x + f_val F y
           in if q = 0 then f_zero F (f_sign F x \<and> f_sign F y) else f_round F q)"

definition fsub :: "format \<Rightarrow> 'a::len word \<Rightarrow> 'a word \<Rightarrow> 'a word" where
  "fsub F x y = fadd F x (fneg F y)"

definition fmul :: "format \<Rightarrow> 'a::len word \<Rightarrow> 'a word \<Rightarrow> 'a word" where
  "fmul F x y =
     (if is_nan F x \<or> is_nan F y then f_nan F
      else if is_inf F x \<or> is_inf F y
        then (if is_zero F x \<or> is_zero F y then f_nan F
              else f_inf F (f_sign F x \<noteq> f_sign F y))
      else let q = f_val F x * f_val F y
           in if q = 0 then f_zero F (f_sign F x \<noteq> f_sign F y) else f_round F q)"

text \<open>\<open>x < y\<close>; the source's \<open>x > y\<close> is \<open>fless F y x\<close>.\<close>

definition fless :: "format \<Rightarrow> 'a::len word \<Rightarrow> 'a word \<Rightarrow> bool" where
  "fless F x y =
     (if is_nan F x \<or> is_nan F y then False
      else if is_inf F x then f_sign F x \<and> \<not> (is_inf F y \<and> f_sign F y)
      else if is_inf F y then \<not> f_sign F y
      else f_val F x < f_val F y)"

subsection \<open>The value that rounding returns\<close>

text \<open>
  The parts of \<open>f_round\<close>, named: for a magnitude \<open>m\<close>, \<open>binade\<close> is the exponent field
  that \<open>f_round\<close> computes, \<open>sigf\<close> the rounded significand, \<open>rbits\<close> the bit pattern
  below the sign bit, and \<open>rnd\<close> the value of that pattern; \<open>rv\<close> is the value for a
  signed argument. \<open>f_sig\<close> is the significand of a bit pattern, with the implicit
  leading one of a normal number.
\<close>

definition binade :: "format \<Rightarrow> rat \<Rightarrow> nat" where
  "binade F m = max 1 (log2i \<lfloor>m * of_int (2 ^ bias F)\<rfloor>)"

definition sigf :: "format \<Rightarrow> rat \<Rightarrow> int" where
  "sigf F m = rne (m * of_int (2 ^ (bias F + frac_bits F)) / of_int (2 ^ binade F m))"

definition rbits :: "format \<Rightarrow> rat \<Rightarrow> int" where
  "rbits F m = (int (binade F m) - 1) * 2 ^ frac_bits F + sigf F m"

definition rnd :: "format \<Rightarrow> rat \<Rightarrow> rat" where
  "rnd F m = of_int (sigf F m * 2 ^ binade F m) / of_int (2 ^ (bias F + frac_bits F))"

definition rv :: "format \<Rightarrow> rat \<Rightarrow> rat" where
  "rv F q = (if q < 0 then - rnd F (- q) else rnd F q)"

definition f_sig :: "format \<Rightarrow> 'a::len word \<Rightarrow> int" where
  "f_sig F w = (if f_exp F w = 0 then f_frac F w else 2 ^ frac_bits F + f_frac F w)"

section \<open>The transform kernels (curand\_helper.hpp, lines 170--405)\<close>

subsection \<open>Execution model\<close>

text \<open>
  \<open>cgh.parallel_for(cl::sycl::range<1>(n), kernel)\<close> runs the kernel once for every
  id below \<open>n\<close>, in an order the runtime chooses. The order is the parameter
  \<open>order\<close>: a list that holds each of the ids \<open>0, ..., n - 1\<close> once
  (\<open>schedule n order\<close>). The blocking \<open>wait_and_throw\<close> of the buffer variants and
  the event the USM variants return are not modelled: each function returns the
  memory as it is once the kernel has completed.

  A buffer is the list of its elements. Where a function takes two buffers by
  reference, the buffers live in a store (a function from buffer name to contents)
  and the arguments are names, so that passing the same buffer twice is possible
  and visible. Device memory reached through a raw USM pointer is a function from
  cell index to value, and a pointer is the index of the cell it points to, so
  \<open>r[id]\<close> is the cell \<open>r + id\<close>. The result is \<open>None\<close>
  where the source has undefined behaviour that the arguments alone decide: a
  negative count (converted to an unsigned range of more than \<open>2^63\<close> ids), a buffer
  shorter than the count, and, in the integer transform, the remainder of a
  division by \<open>b - a = 0\<close>.
\<close>

definition schedule :: "int \<Rightarrow> nat list \<Rightarrow> bool" where
  "schedule n order = (sort order = [0..<nat n])"

definition parallel_for :: "nat list \<Rightarrow> (nat \<Rightarrow> 's \<Rightarrow> 's) \<Rightarrow> 's \<Rightarrow> 's" where
  "parallel_for order work_item s = fold work_item order s"

type_synonym buffers = "nat \<Rightarrow> 32 word list"
type_synonym usm = "nat \<Rightarrow> 32 word"

text \<open>
  Two USM arrays of \<open>n\<close> cells that are the same array or do not overlap, and two
  that do not overlap.
\<close>

definition usm_compatible :: "nat \<Rightarrow> nat \<Rightarrow> int \<Rightarrow> bool" where
  "usm_compatible inp out n = (inp = out \<or> inp + nat n \<le> out \<or> out + nat n \<le> inp)"

definition usm_disjoint :: "nat \<Rightarrow> nat \<Rightarrow> int \<Rightarrow> bool" where
  "usm_disjoint inp out n = (inp + nat n \<le> out \<or> out + nat n \<le> inp)"

subsection \<open>Floating-point range transform (lines 170--210)\<close>

definition range_transform_fp ::
  "format \<Rightarrow> nat list \<Rightarrow> 'a::len word \<Rightarrow> 'a word \<Rightarrow> int \<Rightarrow> 'a word list \<Rightarrow> 'a word list option" where
  "range_transform_fp F order a b n r =
     (if n < 0 \<or> int (length r) < n then None
      else Some (parallel_for order
        (\<lambda>id acc. acc[id := fadd F (fmul F (acc ! id) (fsub F b a)) a]) r))"

definition range_transform_fp_usm ::
  "format \<Rightarrow> nat list \<Rightarrow> 'a::len word \<Rightarrow> 'a word \<Rightarrow> int \<Rightarrow> nat \<Rightarrow> (nat \<Rightarrow> 'a word)
     \<Rightarrow> (nat \<Rightarrow> 'a word) option" where
  "range_transform_fp_usm F order a b n r mem =
     (if n < 0 then None
      else Some (parallel_for order
        (\<lambda>id m. m(r + id := fadd F (fmul F (m (r + id)) (fsub F b a)) a)) mem))"

subsection \<open>Accurate floating-point range transform (lines 229--282)\<close>

definition range_transform_fp_accurate ::
  "format \<Rightarrow> nat list \<Rightarrow> 'a::len word \<Rightarrow> 'a word \<Rightarrow> int \<Rightarrow> 'a word list \<Rightarrow> 'a word list option" where
  "range_transform_fp_accurate F order a b n r =
     (if n < 0 \<or> int (length r) < n then None
      else Some (parallel_for order
        (\<lambda>id acc.
           let acc1 = acc[id := fadd F (fmul F (acc ! id) (fsub F b a)) a]
           in if fless F (acc1 ! id) a then acc1[id := a]
              else if fless F b (acc1 ! id) then acc1[id := b]
              else acc1) r))"

definition range_transform_fp_accurate_usm ::
  "format \<Rightarrow> nat list \<Rightarrow> 'a::len word \<Rightarrow> 'a word \<Rightarrow> int \<Rightarrow> nat \<Rightarrow> (nat \<Rightarrow> 'a word)
     \<Rightarrow> (nat \<Rightarrow> 'a word) option" where
  "range_transform_fp_accurate_usm F order a b n r mem =
     (if n < 0 then None
      else Some (parallel_for order
        (\<lambda>id m.
           let m1 = m(r + id := fadd F (fmul F (m (r + id)) (fsub F b a)) a)
           in if fless F (m1 (r + id)) a then m1(r + id := a)
              else if fless F b (m1 (r + id)) then m1(r + id := b)
              else m1) mem))"

subsection \<open>Integer range transform (lines 302--344)\<close>

text \<open>
  \<open>T\<close> is \<open>std::int32_t\<close> or \<open>std::uint32_t\<close>; either is a 32-bit word. In
  \<open>a + acc_in[id] % (b - a)\<close> the raw value is a \<open>std::uint32_t\<close>, so for either
  \<open>T\<close> the usual arithmetic conversions make the remainder and the sum unsigned
  32-bit operations, and the store to \<open>T\<close> keeps the bits. For \<open>std::int32_t\<close> the
  difference \<open>b - a\<close> is a signed subtraction; it is taken in two's complement
  (it wraps), as the device computes it.
\<close>

definition range_transform_int ::
  "nat list \<Rightarrow> 32 word \<Rightarrow> 32 word \<Rightarrow> int \<Rightarrow> nat \<Rightarrow> nat \<Rightarrow> buffers \<Rightarrow> buffers option" where
  "range_transform_int order a b n inb out bufs =
     (if n < 0 \<or> int (length (bufs inb)) < n \<or> int (length (bufs out)) < n
         \<or> (0 < n \<and> b - a = 0)
      then None
      else Some (parallel_for order
        (\<lambda>id s. s(out := (s out)[id := a + (s inb ! id) mod (b - a)])) bufs))"

definition range_transform_int_usm ::
  "nat list \<Rightarrow> 32 word \<Rightarrow> 32 word \<Rightarrow> int \<Rightarrow> nat \<Rightarrow> nat \<Rightarrow> usm \<Rightarrow> usm option" where
  "range_transform_int_usm order a b n inp out mem =
     (if n < 0 \<or> (0 < n \<and> b - a = 0) then None
      else Some (parallel_for order
        (\<lambda>id m. m(out + id := a + m (inp + id) mod (b - a))) mem))"

subsection \<open>Bernoulli samples from uniform samples (lines 364--405)\<close>

text \<open>
  \<open>p\<close> and the input are \<open>float\<close>; the output type is \<open>std::int32_t\<close> or
  \<open>std::uint32_t\<close>. The \<open>bool\<close> that \<open>acc_in[id] < p\<close> yields converts to 1 or 0.
  The buffer variant takes \<open>in\<close> by value; a copy of a \<open>cl::sycl::buffer\<close> is a
  handle to the same contents, so it is a name in the store as well.
\<close>

definition sample_bernoulli_from_uniform ::
  "nat list \<Rightarrow> 32 word \<Rightarrow> int \<Rightarrow> nat \<Rightarrow> nat \<Rightarrow> buffers \<Rightarrow> buffers option" where
  "sample_bernoulli_from_uniform order p n inb out bufs =
     (if n < 0 \<or> int (length (bufs inb)) < n \<or> int (length (bufs out)) < n then None
      else Some (parallel_for order
        (\<lambda>id s. s(out := (s out)[id := of_bool (fless binary32 (s inb ! id) p)])) bufs))"

definition sample_bernoulli_from_uniform_usm ::
  "nat list \<Rightarrow> 32 word \<Rightarrow> int \<Rightarrow> nat \<Rightarrow> nat \<Rightarrow> usm \<Rightarrow> usm option" where
  "sample_bernoulli_from_uniform_usm order p n inp out mem =
     (if n < 0 then None
      else Some (parallel_for order
        (\<lambda>id m. m(out + id := of_bool (fless binary32 (m (inp + id)) p))) mem))"

subsection \<open>What a kernel leaves in one cell\<close>

text \<open>
  The value that the floating-point kernels compute from the value \<open>v\<close> of a cell:
  \<open>v * (b - a) + a\<close>, and the same followed by the two comparisons of the accurate
  variant. \<open>unit_sample\<close> says that a number lies in \<open>[0, 1)\<close>.
\<close>

definition scaled :: "format \<Rightarrow> 'a::len word \<Rightarrow> 'a word \<Rightarrow> 'a word \<Rightarrow> 'a word" where
  "scaled F a b v = fadd F (fmul F v (fsub F b a)) a"

definition scaled_clamped :: "format \<Rightarrow> 'a::len word \<Rightarrow> 'a word \<Rightarrow> 'a word \<Rightarrow> 'a word" where
  "scaled_clamped F a b v =
     (if fless F (scaled F a b v) a then a
      else if fless F b (scaled F a b v) then b
      else scaled F a b v)"

definition unit_sample :: "format \<Rightarrow> 'a::len word \<Rightarrow> bool" where
  "unit_sample F v = (is_finite F v \<and> 0 \<le> f_val F v \<and> f_val F v < 1)"

section \<open>Running a kernel over a schedule\<close>

lemma schedule_distinct: "schedule n order \<Longrightarrow> distinct order"
  unfolding schedule_def by (metis distinct_sort distinct_upt)

lemma schedule_set: "schedule n order \<Longrightarrow> set order = {0..<nat n}"
  unfolding schedule_def by (metis set_sort set_upt)

lemma schedule_mem: "schedule n order \<Longrightarrow> i < nat n \<Longrightarrow> i \<in> set order"
  by (simp add: schedule_set)

subsection \<open>One buffer, updated in place\<close>

lemma length_fold_inplace:
  "length (fold (\<lambda>id acc. acc[id := f (acc ! id)]) order acc) = length acc"
  by (induction order arbitrary: acc) simp_all

lemma nth_fold_inplace:
  "distinct order \<Longrightarrow> i < length acc \<Longrightarrow>
   fold (\<lambda>id acc. acc[id := f (acc ! id)]) order acc ! i
     = (if i \<in> set order then f (acc ! i) else acc ! i)"
proof (induction order arbitrary: acc)
  case Nil
  then show ?case by simp
next
  case (Cons x xs)
  have "fold (\<lambda>id acc. acc[id := f (acc ! id)]) (x # xs) acc ! i
      = fold (\<lambda>id acc. acc[id := f (acc ! id)]) xs (acc[x := f (acc ! x)]) ! i"
    by simp
  also have "\<dots> = (if i \<in> set xs then f (acc[x := f (acc ! x)] ! i) else acc[x := f (acc ! x)] ! i)"
    using Cons.prems by (intro Cons.IH) simp_all
  also have "\<dots> = (if i \<in> set (x # xs) then f (acc ! i) else acc ! i)"
  proof (cases "i = x")
    case True
    then show ?thesis using Cons.prems by simp
  next
    case False
    then show ?thesis by simp
  qed
  finally show ?case .
qed

subsection \<open>One USM array, updated in place\<close>

lemma fold_usm_inplace:
  "distinct order \<Longrightarrow>
   fold (\<lambda>id m. m(r + id := f (m (r + id)))) order (mem :: nat \<Rightarrow> 'v) x
     = (if x \<in> (\<lambda>i. r + i) ` set order then f (mem x) else mem x)"
proof (induction order arbitrary: mem)
  case Nil
  then show ?case by simp
next
  case (Cons y ys)
  have "fold (\<lambda>id m. m(r + id := f (m (r + id)))) (y # ys) mem x
      = fold (\<lambda>id m. m(r + id := f (m (r + id)))) ys (mem(r + y := f (mem (r + y)))) x"
    by simp
  also have "\<dots> = (if x \<in> (\<lambda>i. r + i) ` set ys then f ((mem(r + y := f (mem (r + y)))) x)
       else (mem(r + y := f (mem (r + y)))) x)"
    using Cons.prems by (intro Cons.IH) simp
  also have "\<dots> = (if x \<in> (\<lambda>i. r + i) ` set (y # ys) then f (mem x) else mem x)"
    using Cons.prems by auto
  finally show ?case .
qed

subsection \<open>Two buffers of a store\<close>

lemma fold_store_same:
  "fold (\<lambda>id s. s(out := (s out)[id := f (s out ! id)])) order (bufs :: nat \<Rightarrow> 'v list)
     = bufs(out := fold (\<lambda>id acc. acc[id := f (acc ! id)]) order (bufs out))"
proof (induction order arbitrary: bufs)
  case Nil
  then show ?case by simp
next
  case (Cons x xs)
  let ?K = "\<lambda>id s. s(out := (s out)[id := f (s out ! id)])"
  have "fold ?K (x # xs) bufs = fold ?K xs (?K x bufs)"
    by (simp only: fold_simps comp_apply)
  also have "\<dots> = (?K x bufs)(out := fold (\<lambda>id acc. acc[id := f (acc ! id)]) xs ((?K x bufs) out))"
    by (rule Cons.IH)
  also have "\<dots> = bufs(out := fold (\<lambda>id acc. acc[id := f (acc ! id)]) (x # xs) (bufs out))"
    by (simp only: fold_simps comp_apply fun_upd_same fun_upd_upd)
  finally show ?case .
qed

lemma fold_store_other:
  "inb \<noteq> out \<Longrightarrow>
   fold (\<lambda>id s. s(out := (s out)[id := f (s inb ! id)])) order (bufs :: nat \<Rightarrow> 'v list)
     = bufs(out := fold (\<lambda>id acc. acc[id := f (bufs inb ! id)]) order (bufs out))"
proof (induction order arbitrary: bufs)
  case Nil
  then show ?case by simp
next
  case (Cons x xs)
  let ?K = "\<lambda>id s. s(out := (s out)[id := f (s inb ! id)])"
  have inb: "(?K x bufs) inb = bufs inb" using Cons.prems by simp
  have "fold ?K (x # xs) bufs = fold ?K xs (?K x bufs)"
    by (simp only: fold_simps comp_apply)
  also have "\<dots> = (?K x bufs)(out :=
      fold (\<lambda>id acc. acc[id := f ((?K x bufs) inb ! id)]) xs ((?K x bufs) out))"
    using Cons.prems by (rule Cons.IH)
  also have "\<dots> = bufs(out := fold (\<lambda>id acc. acc[id := f (bufs inb ! id)]) (x # xs) (bufs out))"
    by (simp only: inb fold_simps comp_apply fun_upd_same fun_upd_upd)
  finally show ?case .
qed

lemma length_fold_const:
  "length (fold (\<lambda>id acc. acc[id := g id]) order acc) = length acc"
  by (induction order arbitrary: acc) simp_all

lemma nth_fold_const:
  "i < length acc \<Longrightarrow>
   fold (\<lambda>id acc. acc[id := g id]) order acc ! i = (if i \<in> set order then g i else acc ! i)"
  by (induction order arbitrary: acc) (auto simp: nth_list_update)

lemma fold_store_frame:
  "k \<noteq> out \<Longrightarrow>
   fold (\<lambda>id s. s(out := (s out)[id := f (s inb ! id)])) order (bufs :: nat \<Rightarrow> 'v list) k = bufs k"
  by (cases "inb = out") (simp_all add: fold_store_same fold_store_other)

lemma fold_store_length:
  "length (fold (\<lambda>id s. s(out := (s out)[id := f (s inb ! id)])) order (bufs :: nat \<Rightarrow> 'v list) out)
     = length (bufs out)"
  by (cases "inb = out")
    (simp_all add: fold_store_same fold_store_other length_fold_inplace length_fold_const)

lemma fold_store_nth:
  "distinct order \<Longrightarrow> i < length (bufs out) \<Longrightarrow>
   fold (\<lambda>id s. s(out := (s out)[id := f (s inb ! id)])) order (bufs :: nat \<Rightarrow> 'v list) out ! i
     = (if i \<in> set order then f (bufs inb ! i) else bufs out ! i)"
  by (cases "inb = out")
    (simp_all add: fold_store_same fold_store_other nth_fold_inplace nth_fold_const)

subsection \<open>Two USM arrays\<close>

lemma fold_usm_frame:
  "x \<notin> (\<lambda>i. out + i) ` set order \<Longrightarrow>
   fold (\<lambda>id m. m(out + id := f (m (inp + id)))) order (mem :: nat \<Rightarrow> 'v) x = mem x"
  by (induction order arbitrary: mem) auto

lemma fold_usm_inout:
  "distinct order \<Longrightarrow> i \<in> set order \<Longrightarrow>
   \<forall>j\<in>set order. \<forall>k\<in>set order. out + j = inp + k \<longrightarrow> j = k \<Longrightarrow>
   fold (\<lambda>id m. m(out + id := f (m (inp + id)))) order (mem :: nat \<Rightarrow> 'v) (out + i)
     = f (mem (inp + i))"
proof (induction order arbitrary: mem)
  case Nil
  then show ?case by simp
next
  case (Cons y ys)
  let ?k = "\<lambda>id m. m(out + id := f (m (inp + id)))"
  show ?case
  proof (cases "i = y")
    case True
    then have "out + i \<notin> (\<lambda>i. out + i) ` set ys" using Cons.prems(1) by auto
    then have "fold ?k ys (?k y mem) (out + i) = (?k y mem) (out + i)"
      by (rule fold_usm_frame)
    also have "\<dots> = f (mem (inp + i))" using True by simp
    finally show ?thesis by (simp only: fold_simps comp_apply)
  next
    case False
    then have i: "i \<in> set ys" using Cons.prems(2) by simp
    have "fold ?k ys (?k y mem) (out + i) = f ((?k y mem) (inp + i))"
      using Cons.prems i by (intro Cons.IH) simp_all
    moreover have "inp + i \<noteq> out + y" using Cons.prems(3) False i by fastforce
    then have "f ((?k y mem) (inp + i)) = f (mem (inp + i))" by simp
    ultimately have "fold ?k ys (?k y mem) (out + i) = f (mem (inp + i))" by (rule trans)
    then show ?thesis by (simp only: fold_simps comp_apply)
  qed
qed

lemma usm_compatible_cross:
  "usm_compatible inp out n \<Longrightarrow> schedule n order \<Longrightarrow>
   \<forall>j\<in>set order. \<forall>k\<in>set order. out + j = inp + k \<longrightarrow> j = k"
  by (auto simp: usm_compatible_def schedule_set)

lemma usm_disjoint_compatible: "usm_disjoint inp out n \<Longrightarrow> usm_compatible inp out n"
  by (auto simp: usm_compatible_def usm_disjoint_def)

section \<open>Arithmetic of the integer kernel\<close>

lemma uint_of_int32: "uint (word_of_int k :: 32 word) = k mod 2 ^ 32"
  by (simp add: uint_word_of_int)

lemma sint_of_int32: "sint (word_of_int k :: 32 word) = signed_take_bit 31 k"
  by (simp add: sint_sbintrunc')

lemma uint_diff_signed:
  fixes a b :: "32 word"
  assumes "sint a < sint b"
  shows "uint (b - a) = sint b - sint a"
proof -
  have e: "word_of_int (sint b - sint a) = b - a" by simp
  have "sint b - sint a < 2 ^ 32" "0 \<le> sint b - sint a"
    using sint_lt [of b] sint_ge [of a] assms by simp_all
  then have "(sint b - sint a) mod 2 ^ 32 = sint b - sint a" by simp
  then show ?thesis using uint_of_int32 [of "sint b - sint a"] by (simp only: e)
qed

lemma sint_add_small:
  fixes a r :: "32 word"
  assumes "sint a + uint r < 2 ^ 31"
  shows "sint (a + r) = sint a + uint r"
proof -
  have e: "word_of_int (sint a + uint r) = a + r" by simp
  have "- (2 ^ 31) \<le> sint a" using sint_ge [of a] by simp
  moreover have "0 \<le> uint r" by simp
  ultimately have lo: "- (2 ^ 31) \<le> sint a + uint r" by linarith
  have "signed_take_bit 31 (sint a + uint r) = sint a + uint r"
    using lo assms by (simp add: signed_take_bit_int_eq_self)
  then show ?thesis using sint_of_int32 [of "sint a + uint r"] by (simp only: e)
qed

lemma int_elem_signed:
  fixes a b raw :: "32 word"
  assumes "sint a < sint b"
  shows "sint a \<le> sint (a + raw mod (b - a)) \<and> sint (a + raw mod (b - a)) < sint b"
proof -
  have d: "uint (b - a) = sint b - sint a" by (rule uint_diff_signed [OF assms])
  have r: "uint (raw mod (b - a)) = uint raw mod uint (b - a)" by (rule uint_mod_distrib)
  have r1: "uint (raw mod (b - a)) < sint b - sint a"
    using d assms by (simp add: r)
  have r0: "0 \<le> uint (raw mod (b - a))" by simp
  have "sint a + uint (raw mod (b - a)) < 2 ^ 31"
    using r1 sint_lt [of b] by simp
  then have "sint (a + raw mod (b - a)) = sint a + uint (raw mod (b - a))"
    by (rule sint_add_small)
  then show ?thesis using r1 r0 by simp
qed

lemma int_elem_unsigned:
  fixes a b raw :: "32 word"
  assumes "a < b"
  shows "a \<le> a + raw mod (b - a) \<and> a + raw mod (b - a) < b"
proof -
  have ab: "uint a < uint b" using assms by (simp add: word_less_def)
  then have "uint a \<le> uint b" by simp
  then have d: "uint (b - a) = uint b - uint a" by (rule uint_sub_lem [THEN iffD1])
  have r: "uint (raw mod (b - a)) = uint raw mod uint (b - a)" by (rule uint_mod_distrib)
  have r1: "uint (raw mod (b - a)) < uint b - uint a"
    using d ab by (simp add: r)
  have r0: "0 \<le> uint (raw mod (b - a))" by simp
  have "uint a + uint (raw mod (b - a)) < 2 ^ LENGTH(32)"
    using r1 uint_lt2p [of b] by simp
  then have s: "uint (a + raw mod (b - a)) = uint a + uint (raw mod (b - a))"
    by (rule uint_add_lem [THEN iffD1])
  show ?thesis using r1 r0 s by (simp add: word_le_def word_less_def)
qed

section \<open>What each transform returns\<close>

lemma accurate_kernel_list:
  "(\<lambda>id acc. let acc1 = acc[id := fadd F (fmul F (acc ! id) (fsub F b a)) a]
        in if fless F (acc1 ! id) a then acc1[id := a]
           else if fless F b (acc1 ! id) then acc1[id := b]
           else acc1)
   = (\<lambda>id acc. acc[id := scaled_clamped F a b (acc ! id)])"
proof (intro ext)
  fix id :: nat and acc :: "'a word list"
  show "(let acc1 = acc[id := fadd F (fmul F (acc ! id) (fsub F b a)) a]
        in if fless F (acc1 ! id) a then acc1[id := a]
           else if fless F b (acc1 ! id) then acc1[id := b]
           else acc1) = acc[id := scaled_clamped F a b (acc ! id)]"
  proof (cases "id < length acc")
    case True
    then show ?thesis by (simp add: Let_def scaled_clamped_def scaled_def)
  next
    case False
    then show ?thesis by (simp add: Let_def list_update_beyond)
  qed
qed

lemma accurate_kernel_usm:
  "(\<lambda>id m. let m1 = m(r + id := fadd F (fmul F (m (r + id)) (fsub F b a)) a)
        in if fless F (m1 (r + id)) a then m1(r + id := a)
           else if fless F b (m1 (r + id)) then m1(r + id := b)
           else m1)
   = (\<lambda>id m. m(r + id := scaled_clamped F a b (m (r + id))))"
  by (intro ext) (simp add: Let_def scaled_clamped_def scaled_def)

lemma range_transform_fp_run:
  assumes "0 \<le> n" and "schedule n order" and "n \<le> int (length r)"
  shows "\<exists>res. range_transform_fp F order a b n r = Some res \<and> length res = length r
    \<and> (\<forall>i < length r. res ! i = (if i < nat n then scaled F a b (r ! i) else r ! i))"
proof -
  let ?res = "fold (\<lambda>id acc. acc[id := scaled F a b (acc ! id)]) order r"
  have "range_transform_fp F order a b n r = Some ?res"
    using assms by (simp add: range_transform_fp_def parallel_for_def scaled_def)
  moreover have "length ?res = length r" by (rule length_fold_inplace)
  moreover have "\<forall>i < length r. ?res ! i = (if i < nat n then scaled F a b (r ! i) else r ! i)"
    using assms by (simp add: nth_fold_inplace schedule_distinct schedule_set)
  ultimately show ?thesis by blast
qed

lemma range_transform_fp_usm_run:
  assumes "0 \<le> n" and "schedule n order"
  shows "\<exists>mem'. range_transform_fp_usm F order a b n p mem = Some mem'
    \<and> (\<forall>i < nat n. mem' (p + i) = scaled F a b (mem (p + i)))
    \<and> (\<forall>x. x < p \<or> p + nat n \<le> x \<longrightarrow> mem' x = mem x)"
proof -
  let ?res = "fold (\<lambda>id m. m(p + id := scaled F a b (m (p + id)))) order mem"
  have "range_transform_fp_usm F order a b n p mem = Some ?res"
    using assms by (simp add: range_transform_fp_usm_def parallel_for_def scaled_def)
  moreover have "\<forall>i < nat n. ?res (p + i) = scaled F a b (mem (p + i))"
    using assms by (simp add: fold_usm_inplace schedule_distinct schedule_set)
  moreover have "\<forall>x. x < p \<or> p + nat n \<le> x \<longrightarrow> ?res x = mem x"
    using assms by (auto simp add: fold_usm_inplace schedule_distinct schedule_set)
  ultimately show ?thesis by blast
qed

lemma range_transform_fp_accurate_run:
  assumes "0 \<le> n" and "schedule n order" and "n \<le> int (length r)"
  shows "\<exists>res. range_transform_fp_accurate F order a b n r = Some res \<and> length res = length r
    \<and> (\<forall>i < length r. res ! i = (if i < nat n then scaled_clamped F a b (r ! i) else r ! i))"
proof -
  let ?res = "fold (\<lambda>id acc. acc[id := scaled_clamped F a b (acc ! id)]) order r"
  have "range_transform_fp_accurate F order a b n r = Some ?res"
    unfolding range_transform_fp_accurate_def parallel_for_def accurate_kernel_list
    using assms by simp
  moreover have "length ?res = length r" by (rule length_fold_inplace)
  moreover have "\<forall>i < length r. ?res ! i = (if i < nat n then scaled_clamped F a b (r ! i) else r ! i)"
    using assms by (simp add: nth_fold_inplace schedule_distinct schedule_set)
  ultimately show ?thesis by blast
qed

lemma range_transform_fp_accurate_usm_run:
  assumes "0 \<le> n" and "schedule n order"
  shows "\<exists>mem'. range_transform_fp_accurate_usm F order a b n p mem = Some mem'
    \<and> (\<forall>i < nat n. mem' (p + i) = scaled_clamped F a b (mem (p + i)))
    \<and> (\<forall>x. x < p \<or> p + nat n \<le> x \<longrightarrow> mem' x = mem x)"
proof -
  let ?res = "fold (\<lambda>id m. m(p + id := scaled_clamped F a b (m (p + id)))) order mem"
  have "range_transform_fp_accurate_usm F order a b n p mem = Some ?res"
    unfolding range_transform_fp_accurate_usm_def parallel_for_def accurate_kernel_usm
    using assms by simp
  moreover have "\<forall>i < nat n. ?res (p + i) = scaled_clamped F a b (mem (p + i))"
    using assms by (simp add: fold_usm_inplace schedule_distinct schedule_set)
  moreover have "\<forall>x. x < p \<or> p + nat n \<le> x \<longrightarrow> ?res x = mem x"
    using assms by (auto simp add: fold_usm_inplace schedule_distinct schedule_set)
  ultimately show ?thesis by blast
qed

lemma range_transform_int_run:
  assumes "0 \<le> n" and "schedule n order" and "n \<le> int (length (bufs inb))"
    and "n \<le> int (length (bufs out))" and "a \<noteq> b"
  shows "\<exists>res. range_transform_int order a b n inb out bufs = Some res
    \<and> length (res out) = length (bufs out)
    \<and> (\<forall>k. k \<noteq> out \<longrightarrow> res k = bufs k)
    \<and> (\<forall>i < length (bufs out). res out ! i
          = (if i < nat n then a + (bufs inb ! i) mod (b - a) else bufs out ! i))"
proof -
  let ?res = "fold (\<lambda>id s. s(out := (s out)[id := (\<lambda>raw. a + raw mod (b - a)) (s inb ! id)])) order bufs"
  have "range_transform_int order a b n inb out bufs = Some ?res"
    using assms by (simp add: range_transform_int_def parallel_for_def)
  moreover have "length (?res out) = length (bufs out)" by (rule fold_store_length)
  moreover have "\<forall>k. k \<noteq> out \<longrightarrow> ?res k = bufs k"
    by (intro allI impI fold_store_frame)
  moreover have "\<forall>i < length (bufs out). ?res out ! i
          = (if i < nat n then a + (bufs inb ! i) mod (b - a) else bufs out ! i)"
  proof (intro allI impI)
    fix i assume i: "i < length (bufs out)"
    have m: "(i \<in> set order) = (i < nat n)" using assms(2) by (simp add: schedule_set)
    have "?res out ! i
        = (if i \<in> set order then a + (bufs inb ! i) mod (b - a) else bufs out ! i)"
      by (rule fold_store_nth [where f = "\<lambda>raw. a + raw mod (b - a)"
            and bufs = bufs and out = out and inb = inb,
            OF schedule_distinct [OF assms(2)] i])
    then show "?res out ! i
        = (if i < nat n then a + (bufs inb ! i) mod (b - a) else bufs out ! i)"
      by (simp only: m)
  qed
  ultimately show ?thesis by blast
qed

lemma range_transform_int_usm_run:
  assumes "0 \<le> n" and "schedule n order" and "usm_compatible inp out n" and "a \<noteq> b"
  shows "\<exists>mem'. range_transform_int_usm order a b n inp out mem = Some mem'
    \<and> (\<forall>i < nat n. mem' (out + i) = a + mem (inp + i) mod (b - a))
    \<and> (\<forall>x. x < out \<or> out + nat n \<le> x \<longrightarrow> mem' x = mem x)"
proof -
  let ?res = "fold (\<lambda>id m. m(out + id := (\<lambda>raw. a + raw mod (b - a)) (m (inp + id)))) order mem"
  have "range_transform_int_usm order a b n inp out mem = Some ?res"
    using assms by (simp add: range_transform_int_usm_def parallel_for_def)
  moreover have "\<forall>i < nat n. ?res (out + i) = a + mem (inp + i) mod (b - a)"
  proof (intro allI impI)
    fix i assume i: "i < nat n"
    show "?res (out + i) = a + mem (inp + i) mod (b - a)"
      by (rule fold_usm_inout [where f = "\<lambda>raw. a + raw mod (b - a)",
            OF schedule_distinct [OF assms(2)] schedule_mem [OF assms(2) i]
               usm_compatible_cross [OF assms(3,2)]])
  qed
  moreover have "\<forall>x. x < out \<or> out + nat n \<le> x \<longrightarrow> ?res x = mem x"
    using assms(2) by (intro allI impI fold_usm_frame) (auto simp: schedule_set)
  ultimately show ?thesis by blast
qed

lemma sample_bernoulli_from_uniform_run:
  assumes "0 \<le> n" and "schedule n order" and "n \<le> int (length (bufs inb))"
    and "n \<le> int (length (bufs out))"
  shows "\<exists>res. sample_bernoulli_from_uniform order p n inb out bufs = Some res
    \<and> length (res out) = length (bufs out)
    \<and> (\<forall>k. k \<noteq> out \<longrightarrow> res k = bufs k)
    \<and> (\<forall>i < length (bufs out). res out ! i
          = (if i < nat n then of_bool (fless binary32 (bufs inb ! i) p) else bufs out ! i))"
proof -
  let ?res = "fold (\<lambda>id s. s(out := (s out)[id := (\<lambda>v. of_bool (fless binary32 v p)) (s inb ! id)])) order bufs"
  have "sample_bernoulli_from_uniform order p n inb out bufs = Some ?res"
    using assms by (simp add: sample_bernoulli_from_uniform_def parallel_for_def)
  moreover have "length (?res out) = length (bufs out)" by (rule fold_store_length)
  moreover have "\<forall>k. k \<noteq> out \<longrightarrow> ?res k = bufs k"
    by (intro allI impI fold_store_frame)
  moreover have "\<forall>i < length (bufs out). ?res out ! i
          = (if i < nat n then of_bool (fless binary32 (bufs inb ! i) p) else bufs out ! i)"
  proof (intro allI impI)
    fix i assume i: "i < length (bufs out)"
    have m: "(i \<in> set order) = (i < nat n)" using assms(2) by (simp add: schedule_set)
    have "?res out ! i
        = (if i \<in> set order then of_bool (fless binary32 (bufs inb ! i) p) else bufs out ! i)"
      by (rule fold_store_nth [where f = "\<lambda>v. of_bool (fless binary32 v p)"
            and bufs = bufs and out = out and inb = inb,
            OF schedule_distinct [OF assms(2)] i])
    then show "?res out ! i
        = (if i < nat n then of_bool (fless binary32 (bufs inb ! i) p) else bufs out ! i)"
      by (simp only: m)
  qed
  ultimately show ?thesis by blast
qed

lemma sample_bernoulli_from_uniform_usm_run:
  assumes "0 \<le> n" and "schedule n order" and "usm_compatible inp out n"
  shows "\<exists>mem'. sample_bernoulli_from_uniform_usm order p n inp out mem = Some mem'
    \<and> (\<forall>i < nat n. mem' (out + i) = of_bool (fless binary32 (mem (inp + i)) p))
    \<and> (\<forall>x. x < out \<or> out + nat n \<le> x \<longrightarrow> mem' x = mem x)"
proof -
  let ?res = "fold (\<lambda>id m. m(out + id := (\<lambda>v. of_bool (fless binary32 v p)) (m (inp + id)))) order mem"
  have "sample_bernoulli_from_uniform_usm order p n inp out mem = Some ?res"
    using assms by (simp add: sample_bernoulli_from_uniform_usm_def parallel_for_def)
  moreover have "\<forall>i < nat n. ?res (out + i) = of_bool (fless binary32 (mem (inp + i)) p)"
  proof (intro allI impI)
    fix i assume i: "i < nat n"
    show "?res (out + i) = of_bool (fless binary32 (mem (inp + i)) p)"
      by (rule fold_usm_inout [where f = "\<lambda>v. of_bool (fless binary32 v p)",
            OF schedule_distinct [OF assms(2)] schedule_mem [OF assms(2) i]
               usm_compatible_cross [OF assms(3,2)]])
  qed
  moreover have "\<forall>x. x < out \<or> out + nat n \<le> x \<longrightarrow> ?res x = mem x"
    using assms(2) by (intro allI impI fold_usm_frame) (auto simp: schedule_set)
  ultimately show ?thesis by blast
qed

section \<open>Properties of the error translation\<close>

text \<open>
  Claim C5. For every status code that a lookup function recognises, the function
  returns the name of that enumerator, letter for letter; for every status value that
  is none of the recognised codes it returns the fallback \<open><unknown>\<close>, which is
  not the empty string. This holds for \<open>curand_error_map\<close> and for
  \<open>cuda_error_map\<close>, whatever distinct values the headers give the enumerators.
\<close>

theorem error_map_names:
  assumes "distinct (curand_labels C)" and "distinct (cuda_labels D)"
  shows "curand_error_map C (CURAND_STATUS_SUCCESS C) = ''CURAND_STATUS_SUCCESS''
    \<and> curand_error_map C (CURAND_STATUS_VERSION_MISMATCH C) = ''CURAND_STATUS_VERSION_MISMATCH''
    \<and> curand_error_map C (CURAND_STATUS_NOT_INITIALIZED C) = ''CURAND_STATUS_NOT_INITIALIZED''
    \<and> curand_error_map C (CURAND_STATUS_ALLOCATION_FAILED C)
          = ''CURAND_STATUS_ALLOCATION_FAILED''
    \<and> curand_error_map C (CURAND_STATUS_TYPE_ERROR C) = ''CURAND_STATUS_TYPE_ERROR''
    \<and> curand_error_map C (CURAND_STATUS_OUT_OF_RANGE C) = ''CURAND_STATUS_OUT_OF_RANGE''
    \<and> curand_error_map C (CURAND_STATUS_LENGTH_NOT_MULTIPLE C)
          = ''CURAND_STATUS_LENGTH_NOT_MULTIPLE''
    \<and> curand_error_map C (CURAND_STATUS_DOUBLE_PRECISION_REQUIRED C)
          = ''CURAND_STATUS_DOUBLE_PRECISION_REQUIRED''
    \<and> curand_error_map C (CURAND_STATUS_LAUNCH_FAILURE C) = ''CURAND_STATUS_LAUNCH_FAILURE''
    \<and> curand_error_map C (CURAND_STATUS_PREEXISTING_FAILURE C)
          = ''CURAND_STATUS_PREEXISTING_FAILURE''
    \<and> curand_error_map C (CURAND_STATUS_INITIALIZATION_FAILED C)
          = ''CURAND_STATUS_INITIALIZATION_FAILED''
    \<and> curand_error_map C (CURAND_STATUS_ARCH_MISMATCH C) = ''CURAND_STATUS_ARCH_MISMATCH''
    \<and> curand_error_map C (CURAND_STATUS_INTERNAL_ERROR C) = ''CURAND_STATUS_INTERNAL_ERROR''
    \<and> cuda_error_map D (cudaSuccess D) = ''cudaSuccess''
    \<and> cuda_error_map D (cudaErrorNotPermitted D) = ''cudaErrorNotPermitted''
    \<and> cuda_error_map D (cudaErrorIncompatibleDriverContext D)
          = ''cudaErrorIncompatibleDriverContext''
    \<and> cuda_error_map D (cudaErrorInvalidDevice D) = ''cudaErrorInvalidDevice''
    \<and> cuda_error_map D (cudaErrorInvalidValue D) = ''cudaErrorInvalidValue''
    \<and> cuda_error_map D (cudaErrorMemoryAllocation D) = ''cudaErrorMemoryAllocation''
    \<and> cuda_error_map D (cudaErrorLaunchOutOfResources D) = ''cudaErrorLaunchOutOfResources''
    \<and> (\<forall>v. v \<notin> set (curand_labels C) \<longrightarrow> curand_error_map C v = ''<unknown>'')
    \<and> (\<forall>v. v \<notin> set (cuda_labels D) \<longrightarrow> cuda_error_map D v = ''<unknown>'')
    \<and> ''<unknown>'' \<noteq> []"
  using assms unfolding curand_labels_def cuda_labels_def
  apply (intro conjI)
  apply (simp_all add: curand_error_map_def cuda_error_map_def eq_commute)
  done

theorem error_map_names_witness:
  "distinct (curand_labels curand_h) \<and> distinct (cuda_labels cuda_h)
   \<and> curand_error_map curand_h 204 = ''CURAND_STATUS_ARCH_MISMATCH''
   \<and> cuda_error_map cuda_h 2 = ''cudaErrorMemoryAllocation''
   \<and> (7 \<notin> set (curand_labels curand_h) \<and> curand_error_map curand_h 7 = ''<unknown>'')
   \<and> (719 \<notin> set (cuda_labels cuda_h) \<and> cuda_error_map cuda_h 719 = ''<unknown>'')"
proof -
  have d: "distinct (curand_labels curand_h)" "distinct (cuda_labels cuda_h)"
    by (simp_all add: curand_labels_def cuda_labels_def curand_h_def cuda_h_def)
  have m: "7 \<notin> set (curand_labels curand_h)" "719 \<notin> set (cuda_labels cuda_h)"
    by (simp_all add: curand_labels_def cuda_labels_def curand_h_def cuda_h_def)
  have a: "CURAND_STATUS_ARCH_MISMATCH curand_h = 204" "cudaErrorMemoryAllocation cuda_h = 2"
    by (simp_all add: curand_h_def cuda_h_def)
  from error_map_names [OF d] m a d show ?thesis by simp
qed

text \<open>
  Claim C6. For every status value and every operation-name prefix, the constructed
  \<open>curand_error\<close> or \<open>cuda_error\<close> carries the message "prefix followed by the
  mapped status name", and \<open>getErrorNumber\<close> returns the numeric status the
  constructor was given.
\<close>

theorem error_carries_message_and_number:
  "curand_what (curand_error C message result) = message @ curand_error_map C result
   \<and> curand_getErrorNumber (curand_error C message result) = result
   \<and> cuda_what (cuda_error D message error) = message @ cuda_error_map D error
   \<and> cuda_getErrorNumber (cuda_error D message error) = error"
  by (simp add: curand_error_def cuda_error_def curand_getErrorNumber_def
      cuda_getErrorNumber_def static_cast_int_def)

text \<open>
  Claim C7. A native call wrapped by \<open>CUDA_CALL\<close> or \<open>CURAND_CALL\<close> raises if and
  only if the status it returns is not the success status. A status other than
  success raises the error built from the stringified function name, \<open>" : "\<close> and
  that status, and nothing of the call's result is returned; the success status
  raises nothing and the call's status and state are passed on.
\<close>

theorem call_raises_iff_not_success:
  "(\<exists>e. CUDA_CALL D name f s = Inl e) = (fst (f s) \<noteq> cudaSuccess D)
   \<and> (\<exists>e. CURAND_CALL C name' g t = Inl e) = (fst (g t) \<noteq> CURAND_STATUS_SUCCESS C)
   \<and> (fst (f s) \<noteq> cudaSuccess D \<longrightarrow>
        CUDA_CALL D name f s = Inl (cuda_error D (name @ '' : '') (fst (f s))))
   \<and> (fst (g t) \<noteq> CURAND_STATUS_SUCCESS C \<longrightarrow>
        CURAND_CALL C name' g t = Inl (curand_error C (name' @ '' : '') (fst (g t))))
   \<and> (fst (f s) = cudaSuccess D \<longrightarrow> CUDA_CALL D name f s = Inr (f s))
   \<and> (fst (g t) = CURAND_STATUS_SUCCESS C \<longrightarrow> CURAND_CALL C name' g t = Inr (g t))"
  by (simp add: CUDA_CALL_def CURAND_CALL_def split: prod.splits)

theorem call_raises_iff_not_success_witness:
  "CUDA_CALL cuda_h ''cudaMalloc'' (\<lambda>s::nat. (2, s)) 0
     = Inl \<lparr>cuda_what = ''cudaMalloc : cudaErrorMemoryAllocation'', cuda_error_number = 2\<rparr>
   \<and> CURAND_CALL curand_h ''curandGenerate'' (\<lambda>s::nat. (201, s)) 0
     = Inl \<lparr>curand_what = ''curandGenerate : CURAND_STATUS_LAUNCH_FAILURE'',
            curand_error_number = 201\<rparr>
   \<and> CUDA_CALL cuda_h ''cudaMalloc'' (\<lambda>s::nat. (0, Suc s)) 0 = Inr (0, 1)
   \<and> CURAND_CALL curand_h ''curandGenerate'' (\<lambda>s::nat. (0, Suc s)) 0 = Inr (0, 1)"
proof -
  have ne: "fst (2 :: int, 0 :: nat) \<noteq> cudaSuccess cuda_h"
    "fst (201 :: int, 0 :: nat) \<noteq> CURAND_STATUS_SUCCESS curand_h"
    by (simp_all add: cuda_h_def curand_h_def)
  have eq: "fst (0 :: int, Suc 0) = cudaSuccess cuda_h"
    "fst (0 :: int, Suc 0) = CURAND_STATUS_SUCCESS curand_h"
    by (simp_all add: cuda_h_def curand_h_def)
  have m: "cuda_error cuda_h (''cudaMalloc'' @ '' : '') 2
      = \<lparr>cuda_what = ''cudaMalloc : cudaErrorMemoryAllocation'', cuda_error_number = 2\<rparr>"
    "curand_error curand_h (''curandGenerate'' @ '' : '') 201
      = \<lparr>curand_what = ''curandGenerate : CURAND_STATUS_LAUNCH_FAILURE'',
         curand_error_number = 201\<rparr>"
    by (simp_all add: cuda_error_def curand_error_def cuda_error_map_def curand_error_map_def
        cuda_h_def curand_h_def static_cast_int_def)
  from call_raises_iff_not_success
    [of cuda_h "''cudaMalloc''" "\<lambda>s::nat. (2, s)" 0
        curand_h "''curandGenerate''" "\<lambda>s::nat. (201, s)" 0]
    call_raises_iff_not_success
    [of cuda_h "''cudaMalloc''" "\<lambda>s::nat. (0, Suc s)" 0
        curand_h "''curandGenerate''" "\<lambda>s::nat. (0, Suc s)" 0]
    ne eq m
  show ?thesis by simp
qed

section \<open>Properties of the integer range transform\<close>

lemma take3_nth: "3 \<le> length xs \<Longrightarrow> take 3 xs = [xs ! 0, xs ! 1, xs ! 2]"
proof -
  assume "3 \<le> length xs"
  then obtain x y z zs where "xs = x # y # z # zs"
    by (metis (no_types, opaque_lifting) Suc_le_length_iff numeral_3_eq_3)
  then show ?thesis by (simp add: numeral_3_eq_3)
qed

text \<open>
  Claim C2. For every raw 32-bit input and every pair of bounds \<open>a < b\<close>, read as
  \<open>std::int32_t\<close> (\<open>sint a < sint b\<close>) or as \<open>std::uint32_t\<close> (\<open>a < b\<close>), both
  variants of \<open>range_transform_int\<close> return, and they write
  \<open>a + raw % (b - a)\<close> to every output element below \<open>n\<close>; that output is at
  least \<open>a\<close> and less than \<open>b\<close> in the same reading. The raw inputs
  \<open>[5, 17, 33]\<close> with \<open>a = 10\<close> and \<open>b = 20\<close> give \<open>[15, 17, 13]\<close>. The two
  USM arrays are the same array or do not overlap; the schedule is any order of the
  \<open>n\<close> work-items.
\<close>

theorem range_transform_int_in_range:
  assumes "0 \<le> n" and "schedule n order" and "schedule n order'"
    and "n \<le> int (length (bufs inb))" and "n \<le> int (length (bufs out))"
    and "usm_compatible inp outp n"
    and "sint a < sint b \<or> a < b"
    and "i < nat n"
  shows "\<exists>res mem'.
      range_transform_int order a b n inb out bufs = Some res
    \<and> range_transform_int_usm order' a b n inp outp mem = Some mem'
    \<and> res out ! i = a + (bufs inb ! i) mod (b - a)
    \<and> mem' (outp + i) = a + mem (inp + i) mod (b - a)
    \<and> (sint a < sint b \<longrightarrow>
          sint a \<le> sint (res out ! i) \<and> sint (res out ! i) < sint b
        \<and> sint a \<le> sint (mem' (outp + i)) \<and> sint (mem' (outp + i)) < sint b)
    \<and> (a < b \<longrightarrow>
          a \<le> res out ! i \<and> res out ! i < b \<and> a \<le> mem' (outp + i) \<and> mem' (outp + i) < b)
    \<and> (a = 10 \<and> b = 20 \<and> n = 3 \<and> bufs inb = [5, 17, 33] \<longrightarrow>
          take 3 (res out) = [15, 17, 13])
    \<and> (a = 10 \<and> b = 20 \<and> n = 3 \<and> [mem inp, mem (inp + 1), mem (inp + 2)] = [5, 17, 33] \<longrightarrow>
          [mem' outp, mem' (outp + 1), mem' (outp + 2)] = [15, 17, 13])"
proof -
  have ne: "a \<noteq> b" using assms(7) by auto
  obtain res where res: "range_transform_int order a b n inb out bufs = Some res"
    and len: "length (res out) = length (bufs out)"
    and nth: "\<forall>i < length (bufs out). res out ! i
          = (if i < nat n then a + (bufs inb ! i) mod (b - a) else bufs out ! i)"
    using range_transform_int_run [OF assms(1,2,4,5) ne] by blast
  obtain mem' where mem': "range_transform_int_usm order' a b n inp outp mem = Some mem'"
    and cell: "\<forall>i < nat n. mem' (outp + i) = a + mem (inp + i) mod (b - a)"
    using range_transform_int_usm_run [OF assms(1,3,6) ne] by blast
  have n_le: "nat n \<le> length (bufs out)" using assms(1,5) by simp
  have r: "res out ! j = a + (bufs inb ! j) mod (b - a)" if "j < nat n" for j
    using nth that n_le by simp
  have m: "mem' (outp + j) = a + mem (inp + j) mod (b - a)" if "j < nat n" for j
    using cell that by simp
  have s: "sint a < sint b \<longrightarrow>
          sint a \<le> sint (res out ! i) \<and> sint (res out ! i) < sint b
        \<and> sint a \<le> sint (mem' (outp + i)) \<and> sint (mem' (outp + i)) < sint b"
    using int_elem_signed [of a b] by (simp add: r m assms(8))
  have u: "a < b \<longrightarrow>
          a \<le> res out ! i \<and> res out ! i < b \<and> a \<le> mem' (outp + i) \<and> mem' (outp + i) < b"
    using int_elem_unsigned [of a b] by (simp add: r m assms(8))
  have sc1: "a = 10 \<and> b = 20 \<and> n = 3 \<and> bufs inb = [5, 17, 33] \<longrightarrow>
          take 3 (res out) = [15, 17, 13]"
  proof (intro impI)
    assume h: "a = 10 \<and> b = 20 \<and> n = 3 \<and> bufs inb = [5, 17, 33]"
    then have "3 \<le> length (res out)" using n_le len by simp
    then have "take 3 (res out) = [res out ! 0, res out ! 1, res out ! 2]" by (rule take3_nth)
    moreover have "res out ! 0 = 15" "res out ! 1 = 17" "res out ! 2 = 13"
      using h r [of 0] r [of 1] r [of 2] by simp_all
    ultimately show "take 3 (res out) = [15, 17, 13]" by simp
  qed
  have sc2: "a = 10 \<and> b = 20 \<and> n = 3 \<and> [mem inp, mem (inp + 1), mem (inp + 2)] = [5, 17, 33] \<longrightarrow>
          [mem' outp, mem' (outp + 1), mem' (outp + 2)] = [15, 17, 13]"
  proof (intro impI)
    assume h: "a = 10 \<and> b = 20 \<and> n = 3 \<and> [mem inp, mem (inp + 1), mem (inp + 2)] = [5, 17, 33]"
    then show "[mem' outp, mem' (outp + 1), mem' (outp + 2)] = [15, 17, 13]"
      using m [of 0] m [of 1] m [of 2] by simp
  qed
  show ?thesis
    using res mem' r [OF assms(8)] m [OF assms(8)] s u sc1 sc2 by blast
qed


theorem range_transform_int_in_range_witness:
  "\<exists>res mem'.
      range_transform_int [2, 0, 1] 10 20 3 0 1 (\<lambda>k. if k = 0 then [5, 17, 33] else [0, 0, 0])
        = Some res
    \<and> range_transform_int_usm [1, 2, 0] 10 20 3 0 3
        (\<lambda>x. if x = 0 then 5 else if x = 1 then 17 else 33) = Some mem'
    \<and> take 3 (res 1) = [15, 17, 13]
    \<and> [mem' 3, mem' 4, mem' 5] = [15, 17, 13]
    \<and> res 1 ! 2 = 13 \<and> mem' 5 = 13
    \<and> sint (10 :: 32 word) \<le> sint (res 1 ! 2) \<and> sint (res 1 ! 2) < sint (20 :: 32 word)
    \<and> 10 \<le> mem' 5 \<and> mem' 5 < 20"
proof -
  let ?B = "\<lambda>k::nat. if k = 0 then [5, 17, 33] else [0, 0, 0 :: 32 word]"
  let ?M = "\<lambda>x::nat. if x = 0 then 5 else if x = 1 then 17 else (33 :: 32 word)"
  have h1: "(0::int) \<le> 3" by simp
  have h2: "schedule 3 [2, 0, 1]" "schedule 3 [1, 2, 0]" by code_simp+
  have h3: "(3::int) \<le> int (length (?B 0))" "(3::int) \<le> int (length (?B 1))"
    "usm_compatible 0 3 3" "sint (10 :: 32 word) < sint (20 :: 32 word) \<or> (10 :: 32 word) < 20"
    "2 < nat 3"
    by (simp_all add: usm_compatible_def)
  note h = h1 h2 h3
  have s: "sint (10 :: 32 word) < sint (20 :: 32 word)" "(10 :: 32 word) < 20" by simp_all
  from range_transform_int_in_range [OF h, of ?M] s
  show ?thesis by (simp del: One_nat_def) blast
qed

section \<open>Properties of the Bernoulli transform\<close>

lemma of_bool_word_eq_1: "((of_bool P :: 32 word) = 1) = P"
  by (cases P) simp_all

lemma of_bool_word_cases: "(of_bool P :: 32 word) = 0 \<or> (of_bool P :: 32 word) = 1"
  by (cases P) simp_all

lemma fless_samples:
  "fless binary32 (0x3DCCCCCD :: 32 word) 0x3E99999A"
  "\<not> fless binary32 (0x3F000000 :: 32 word) 0x3E99999A"
  "fless binary32 (0x3E947AE1 :: 32 word) 0x3E99999A"
  by code_simp+

text \<open>
  Claim C4. For every probability \<open>p\<close> and every input buffer, both variants of
  \<open>sample_bernoulli_from_uniform\<close> return, and output element \<open>i\<close> (for \<open>i\<close> below
  \<open>n\<close>) is 1 if and only if input element \<open>i\<close> is strictly less than \<open>p\<close> in the
  comparison of \<open>float\<close>; every such output element is 0 or 1. Nothing is needed
  of \<open>p\<close> or of the samples, so the statement covers \<open>p\<close> in \<open>[0, 1]\<close> and
  samples in \<open>[0, 1)\<close>. With \<open>p = 0.3\<close> the samples \<open>[0.1, 0.5, 0.29]\<close> give
  \<open>[1, 0, 1]\<close> (the witness).
\<close>

theorem bernoulli_is_indicator:
  assumes "0 \<le> n" and "schedule n order" and "schedule n order'"
    and "n \<le> int (length (bufs inb))" and "n \<le> int (length (bufs out))"
    and "usm_compatible inp outp n"
    and "i < nat n"
  shows "\<exists>res mem'.
      sample_bernoulli_from_uniform order p n inb out bufs = Some res
    \<and> sample_bernoulli_from_uniform_usm order' p n inp outp mem = Some mem'
    \<and> (res out ! i = 1) = fless binary32 (bufs inb ! i) p
    \<and> (res out ! i = 0 \<or> res out ! i = 1)
    \<and> (mem' (outp + i) = 1) = fless binary32 (mem (inp + i)) p
    \<and> (mem' (outp + i) = 0 \<or> mem' (outp + i) = 1)"
proof -
  obtain res where res: "sample_bernoulli_from_uniform order p n inb out bufs = Some res"
    and nth: "\<forall>i < length (bufs out). res out ! i
          = (if i < nat n then of_bool (fless binary32 (bufs inb ! i) p) else bufs out ! i)"
    using sample_bernoulli_from_uniform_run [OF assms(1,2,4,5)] by blast
  obtain mem' where mem': "sample_bernoulli_from_uniform_usm order' p n inp outp mem = Some mem'"
    and cell: "\<forall>i < nat n. mem' (outp + i) = of_bool (fless binary32 (mem (inp + i)) p)"
    using sample_bernoulli_from_uniform_usm_run [OF assms(1,3,6)] by blast
  have "i < length (bufs out)" using assms(1,5,7) by simp
  then have r: "res out ! i = of_bool (fless binary32 (bufs inb ! i) p)"
    using nth assms(7) by simp
  have m: "mem' (outp + i) = of_bool (fless binary32 (mem (inp + i)) p)"
    using cell assms(7) by simp
  have "(res out ! i = 1) = fless binary32 (bufs inb ! i) p"
    "res out ! i = 0 \<or> res out ! i = 1"
    "(mem' (outp + i) = 1) = fless binary32 (mem (inp + i)) p"
    "mem' (outp + i) = 0 \<or> mem' (outp + i) = 1"
    unfolding r m by (rule of_bool_word_eq_1 of_bool_word_cases)+
  with res mem' show ?thesis by blast
qed

theorem bernoulli_is_indicator_witness:
  "\<exists>res mem'.
      sample_bernoulli_from_uniform [2, 0, 1] 0x3E99999A 3 0 1
        (\<lambda>k. if k = 0 then [0x3DCCCCCD, 0x3F000000, 0x3E947AE1] else [7, 7, 7]) = Some res
    \<and> sample_bernoulli_from_uniform_usm [1, 2, 0] 0x3E99999A 3 0 3
        (\<lambda>x. if x = 0 then 0x3DCCCCCD else if x = 1 then 0x3F000000 else 0x3E947AE1) = Some mem'
    \<and> res 1 ! 0 = 1 \<and> res 1 ! 1 \<noteq> 1 \<and> res 1 ! 1 = 0 \<and> res 1 ! 2 = 1
    \<and> mem' 3 = 1 \<and> mem' 4 \<noteq> 1 \<and> mem' 4 = 0 \<and> mem' 5 = 1"
proof -
  let ?B = "\<lambda>k::nat. if k = 0 then [0x3DCCCCCD, 0x3F000000, 0x3E947AE1] else [7, 7, 7 :: 32 word]"
  let ?M = "\<lambda>x::nat. if x = 0 then 0x3DCCCCCD else if x = 1 then 0x3F000000
              else (0x3E947AE1 :: 32 word)"
  have h1: "(0::int) \<le> 3" by simp
  have h2: "schedule 3 [2, 0, 1]" "schedule 3 [1, 2, 0]" by code_simp+
  have h3: "(3::int) \<le> int (length (?B 0))" "(3::int) \<le> int (length (?B 1))"
    "usm_compatible 0 3 3"
    by (simp_all add: usm_compatible_def)
  have i: "0 < nat 3" "1 < nat 3" "2 < nat 3" by simp_all
  note t = bernoulli_is_indicator [OF h1 h2 h3, of _ "0x3E99999A" ?M]
  from t [OF i(1)] obtain res mem' where
    r: "sample_bernoulli_from_uniform [2, 0, 1] 0x3E99999A 3 0 1 ?B = Some res"
    and m: "sample_bernoulli_from_uniform_usm [1, 2, 0] 0x3E99999A 3 0 3 ?M = Some mem'"
    by blast
  have "res 1 ! 0 = 1 \<and> mem' 3 = 1"
    using t [OF i(1)] fless_samples r m by simp
  moreover have "res 1 ! 1 \<noteq> 1 \<and> res 1 ! 1 = 0 \<and> mem' 4 \<noteq> 1 \<and> mem' 4 = 0"
    using t [OF i(2)] fless_samples r m by (simp del: One_nat_def) blast
  moreover have "res 1 ! 2 = 1 \<and> mem' 5 = 1"
    using t [OF i(3)] fless_samples r m by simp
  ultimately show ?thesis using r m by simp
qed

section \<open>Rounding to nearest\<close>

text \<open>
  Facts about \<open>f_round\<close> on values: it is monotone, it leaves representable
  values as they are, and its result is finite exactly when the rounded magnitude is
  below \<open>2 ^ (exp_max - bias)\<close>. Formats are taken with one sign bit and at least
  two exponent bits, and words of the width of the format.
\<close>

subsection \<open>The position of the leading bit\<close>

lemma log2i_small: "k < 2 \<Longrightarrow> log2i k = 0"
  by (simp add: log2i.simps)

lemma log2i_bounds: "1 \<le> k \<Longrightarrow> 2 ^ log2i k \<le> k \<and> k < 2 ^ Suc (log2i k)"
proof (induction k rule: log2i.induct)
  case (1 k)
  show ?case
  proof (cases "k < 2")
    case True
    then show ?thesis using "1.prems" by (simp add: log2i_small)
  next
    case False
    then have h: "1 \<le> k div 2" by simp
    have e: "log2i k = Suc (log2i (k div 2))" using False by (subst log2i.simps) simp
    from "1.IH" [OF False h]
    have "2 ^ log2i (k div 2) \<le> k div 2" "k div 2 < 2 ^ Suc (log2i (k div 2))" by simp_all
    moreover have "k = 2 * (k div 2) + k mod 2" "0 \<le> k mod 2" "k mod 2 < 2" by simp_all
    ultimately have "2 * 2 ^ log2i (k div 2) \<le> k" "k < 2 * 2 ^ Suc (log2i (k div 2))"
      by linarith+
    then show ?thesis unfolding e by simp
  qed
qed

lemma log2i_mono: "k \<le> l \<Longrightarrow> log2i k \<le> log2i l"
proof (cases "1 \<le> k")
  case False
  then show ?thesis by (simp add: log2i_small)
next
  case True
  assume "k \<le> l"
  then have "(2::int) ^ log2i k < 2 ^ Suc (log2i l)"
    using log2i_bounds [OF True] log2i_bounds [of l] True by linarith
  then have "log2i k < Suc (log2i l)" by (rule power_less_imp_less_exp [rotated]) simp
  then show ?thesis by simp
qed

lemma log2i_less: "k < 2 ^ Suc n \<Longrightarrow> log2i k \<le> n"
proof (cases "1 \<le> k")
  case False
  then show ?thesis by (simp add: log2i_small)
next
  case True
  assume "k < 2 ^ Suc n"
  then have "(2::int) ^ log2i k < 2 ^ Suc n"
    using log2i_bounds [OF True] by linarith
  then have "log2i k < Suc n" by (rule power_less_imp_less_exp [rotated]) simp
  then show ?thesis by simp
qed

subsection \<open>Rounding to an integer\<close>

lemma rne_floor: "\<lfloor>z\<rfloor> \<le> rne z \<and> rne z \<le> \<lfloor>z\<rfloor> + 1"
  by (simp add: rne_def Let_def)

lemma rne_of_int: "rne (of_int k) = k"
  by (simp add: rne_def)

lemma rne_ge_int: "of_int k \<le> z \<Longrightarrow> k \<le> rne z"
proof -
  assume "of_int k \<le> z"
  then have "k \<le> \<lfloor>z\<rfloor>" by (simp add: le_floor_iff)
  then show ?thesis using rne_floor [of z] by linarith
qed

lemma rne_le_int: "z \<le> of_int k \<Longrightarrow> rne z \<le> k"
proof (cases "z = of_int k")
  case True
  then show ?thesis by (simp add: rne_of_int)
next
  case False
  assume "z \<le> of_int k"
  then have "z < of_int k" using False by simp
  then have "\<lfloor>z\<rfloor> < k" by (simp add: floor_less_iff)
  then show ?thesis using rne_floor [of z] by linarith
qed

lemma rne_below_half: "z < of_int k + 1 / 2 \<Longrightarrow> rne z \<le> k"
proof -
  assume h: "z < of_int k + 1 / 2"
  then have "z < of_int (k + 1)" by simp
  then have "\<lfloor>z\<rfloor> < k + 1" by (simp only: floor_less_iff)
  then have f: "\<lfloor>z\<rfloor> \<le> k" by simp
  show ?thesis
  proof (cases "\<lfloor>z\<rfloor> = k")
    case True
    then have "z - of_int \<lfloor>z\<rfloor> < 1 / 2" using h by simp
    then show ?thesis using True by (simp add: rne_def Let_def)
  next
    case False
    then show ?thesis using f rne_floor [of z] by linarith
  qed
qed

lemma rne_mono: "z1 \<le> z2 \<Longrightarrow> rne z1 \<le> rne z2"
proof (cases "\<lfloor>z1\<rfloor> = \<lfloor>z2\<rfloor>")
  case True
  assume "z1 \<le> z2"
  then have "z1 - of_int \<lfloor>z2\<rfloor> \<le> z2 - of_int \<lfloor>z2\<rfloor>" by simp
  then show ?thesis unfolding rne_def Let_def True by auto
next
  case False
  assume h: "z1 \<le> z2"
  then have "\<lfloor>z1\<rfloor> \<le> \<lfloor>z2\<rfloor>" by (rule floor_mono)
  then have "\<lfloor>z1\<rfloor> + 1 \<le> \<lfloor>z2\<rfloor>" using False by simp
  then show ?thesis using rne_floor [of z1] rne_floor [of z2] by linarith
qed

subsection \<open>The binade of a magnitude\<close>

lemma binade_ge1: "1 \<le> binade F m"
  by (simp add: binade_def)

lemma binade_alt: "binade F m = max 1 (log2i \<lfloor>m * 2 ^ bias F\<rfloor>)"
  by (simp add: binade_def)

lemma binade_upper:
  assumes "0 \<le> m"
  shows "m * 2 ^ bias F < 2 ^ Suc (binade F m)"
proof -
  define x where "x = m * 2 ^ bias F"
  define K where "K = \<lfloor>x\<rfloor>"
  have b: "binade F m = max 1 (log2i K)" by (simp add: binade_alt K_def x_def)
  have lt: "x < of_int (K + 1)" unfolding K_def using floor_correct [of x] by blast
  have "K + 1 \<le> 2 ^ Suc (binade F m)"
  proof (cases "1 \<le> K")
    case True
    have "K < 2 ^ Suc (log2i K)" using log2i_bounds [OF True] by blast
    moreover have "(2::int) ^ Suc (log2i K) \<le> 2 ^ Suc (binade F m)"
      by (rule power_increasing) (simp_all add: b)
    ultimately show ?thesis by linarith
  next
    case False
    have "(1::int) \<le> 2 ^ Suc (binade F m)" by (rule one_le_power) simp
    then show ?thesis using False by linarith
  qed
  then have "(of_int (K + 1) :: rat) \<le> of_int (2 ^ Suc (binade F m))"
    by (simp only: of_int_le_iff)
  then have "x < of_int (2 ^ Suc (binade F m))" using lt by (rule less_le_trans [rotated])
  then show ?thesis by (simp add: x_def)
qed

lemma binade_lower:
  assumes "1 < binade F m"
  shows "2 ^ binade F m \<le> m * 2 ^ bias F"
proof -
  define x where "x = m * 2 ^ bias F"
  define K where "K = \<lfloor>x\<rfloor>"
  have b: "binade F m = max 1 (log2i K)" by (simp add: binade_alt K_def x_def)
  have e: "binade F m = log2i K" using assms b by (simp add: max_def split: if_splits)
  have "1 \<le> K"
  proof (rule ccontr)
    assume "\<not> 1 \<le> K"
    then have "log2i K = 0" by (simp add: log2i_small)
    then show False using assms e by simp
  qed
  then have "2 ^ log2i K \<le> K" using log2i_bounds by blast
  then have "(of_int (2 ^ log2i K) :: rat) \<le> of_int K" by (simp only: of_int_le_iff)
  moreover have "of_int K \<le> x" unfolding K_def by (rule of_int_floor_le)
  ultimately have "(of_int (2 ^ log2i K) :: rat) \<le> x" by (rule order_trans)
  then show ?thesis by (simp add: e x_def)
qed

lemma binade_mono: "m1 \<le> m2 \<Longrightarrow> binade F m1 \<le> binade F m2"
proof -
  assume "m1 \<le> m2"
  then have "m1 * 2 ^ bias F \<le> m2 * 2 ^ bias F"
    by (simp add: mult_right_mono)
  then have "\<lfloor>m1 * 2 ^ bias F\<rfloor> \<le> \<lfloor>m2 * 2 ^ bias F\<rfloor>" by (rule floor_mono)
  then have "log2i \<lfloor>m1 * 2 ^ bias F\<rfloor> \<le> log2i \<lfloor>m2 * 2 ^ bias F\<rfloor>"
    by (rule log2i_mono)
  then show ?thesis by (simp add: binade_alt)
qed

lemma binade_le:
  assumes "m * 2 ^ bias F < 2 ^ Suc E" and "1 \<le> E"
  shows "binade F m \<le> E"
proof -
  define x where "x = m * 2 ^ bias F"
  define K where "K = \<lfloor>x\<rfloor>"
  have b: "binade F m = max 1 (log2i K)" by (simp add: binade_alt K_def x_def)
  have "of_int K \<le> x" unfolding K_def by (rule of_int_floor_le)
  moreover have "x < of_int (2 ^ Suc E)" using assms(1) by (simp add: x_def)
  ultimately have "(of_int K :: rat) < of_int (2 ^ Suc E)" by (rule le_less_trans)
  then have "K < 2 ^ Suc E" by (simp only: of_int_less_iff)
  then have "log2i K \<le> E" by (rule log2i_less)
  then show ?thesis using assms(2) by (simp add: b)
qed

subsection \<open>The rounded significand\<close>

lemma sig_arg_eq:
  "m * of_int (2 ^ (bias F + frac_bits F)) / of_int (2 ^ binade F m)
     = m * 2 ^ bias F * 2 ^ frac_bits F / 2 ^ binade F m"
  by (simp add: power_add)

lemma sig_arg_upper:
  assumes "0 \<le> m"
  shows "m * of_int (2 ^ (bias F + frac_bits F)) / of_int (2 ^ binade F m) \<le> 2 ^ Suc (frac_bits F)"
proof -
  have "m * 2 ^ bias F * 2 ^ frac_bits F \<le> 2 ^ Suc (binade F m) * 2 ^ frac_bits F"
    using binade_upper [OF assms, of F] by (simp add: mult_right_mono)
  then show ?thesis unfolding sig_arg_eq by (simp add: field_simps)
qed

lemma sig_arg_lower:
  assumes "1 < binade F m"
  shows "2 ^ frac_bits F \<le> m * of_int (2 ^ (bias F + frac_bits F)) / of_int (2 ^ binade F m)"
proof -
  have "2 ^ binade F m * 2 ^ frac_bits F \<le> m * 2 ^ bias F * 2 ^ frac_bits F"
    using binade_lower [OF assms] by (simp add: mult_right_mono)
  then show ?thesis unfolding sig_arg_eq by (simp add: field_simps)
qed

lemma sigf_upper: "0 \<le> m \<Longrightarrow> sigf F m \<le> 2 ^ Suc (frac_bits F)"
  unfolding sigf_def using sig_arg_upper [of m F] by (intro rne_le_int) simp

lemma sigf_lower: "1 < binade F m \<Longrightarrow> 2 ^ frac_bits F \<le> sigf F m"
  unfolding sigf_def using sig_arg_lower [of F m] by (intro rne_ge_int) simp

lemma sigf_nonneg: "0 \<le> m \<Longrightarrow> 0 \<le> sigf F m"
  unfolding sigf_def by (intro rne_ge_int) simp

subsection \<open>Rounding a magnitude\<close>

lemma rnd_alt:
  "rnd F m = of_int (sigf F m) * 2 ^ binade F m / (2 ^ bias F * 2 ^ frac_bits F)"
  by (simp add: rnd_def power_add)

lemma scale_mono: "(x::rat) \<le> y \<Longrightarrow> 0 \<le> c \<Longrightarrow> 0 < d \<Longrightarrow> x * c / d \<le> y * c / d"
  by (simp add: divide_right_mono mult_right_mono)

lemma scale_strict_mono: "(x::rat) < y \<Longrightarrow> 0 < c \<Longrightarrow> 0 < d \<Longrightarrow> x * c / d < y * c / d"
  by (simp add: divide_strict_right_mono)

lemma rnd_nonneg: "0 \<le> m \<Longrightarrow> 0 \<le> rnd F m"
  unfolding rnd_alt using sigf_nonneg [of m F] by simp

lemma rnd_upper:
  assumes "0 \<le> m"
  shows "rnd F m \<le> 2 ^ Suc (binade F m) / 2 ^ bias F"
proof -
  have "(of_int (sigf F m) :: rat) \<le> of_int (2 ^ Suc (frac_bits F))"
    using sigf_upper [OF assms, of F] by (simp only: of_int_le_iff)
  then have "(of_int (sigf F m) :: rat) \<le> 2 * 2 ^ frac_bits F" by simp
  then have "of_int (sigf F m) * 2 ^ binade F m / (2 ^ bias F * 2 ^ frac_bits F)
      \<le> (2 * 2 ^ frac_bits F) * 2 ^ binade F m / (2 ^ bias F * 2 ^ frac_bits F :: rat)"
    by (rule scale_mono) simp_all
  then show ?thesis unfolding rnd_alt by simp
qed

lemma rnd_lower:
  assumes "1 < binade F m"
  shows "2 ^ binade F m / 2 ^ bias F \<le> rnd F m"
proof -
  have "(of_int (2 ^ frac_bits F) :: rat) \<le> of_int (sigf F m)"
    using sigf_lower [OF assms] by (simp only: of_int_le_iff)
  then have "(2 ^ frac_bits F :: rat) \<le> of_int (sigf F m)" by simp
  then have "2 ^ frac_bits F * 2 ^ binade F m / (2 ^ bias F * 2 ^ frac_bits F)
      \<le> of_int (sigf F m) * 2 ^ binade F m / (2 ^ bias F * 2 ^ frac_bits F :: rat)"
    by (rule scale_mono) simp_all
  then show ?thesis unfolding rnd_alt by simp
qed

lemma rnd_mono:
  assumes "0 \<le> m1" and "m1 \<le> m2"
  shows "rnd F m1 \<le> rnd F m2"
proof (cases "binade F m1 = binade F m2")
  case True
  have "m1 * of_int (2 ^ (bias F + frac_bits F)) / of_int (2 ^ binade F m2)
      \<le> m2 * of_int (2 ^ (bias F + frac_bits F)) / of_int (2 ^ binade F m2)"
    using assms(2) by (rule scale_mono) simp_all
  then have "sigf F m1 \<le> sigf F m2" unfolding sigf_def True by (rule rne_mono)
  then have "(of_int (sigf F m1) :: rat) \<le> of_int (sigf F m2)" by (simp only: of_int_le_iff)
  then have "of_int (sigf F m1) * 2 ^ binade F m2 / (2 ^ bias F * 2 ^ frac_bits F)
      \<le> of_int (sigf F m2) * 2 ^ binade F m2 / (2 ^ bias F * 2 ^ frac_bits F :: rat)"
    by (rule scale_mono) simp_all
  then show ?thesis unfolding rnd_alt True .
next
  case False
  then have lt: "binade F m1 < binade F m2" using binade_mono [OF assms(2), of F] by simp
  then have one: "1 < binade F m2" using binade_ge1 [of F m1] by simp
  have "rnd F m1 \<le> 2 ^ Suc (binade F m1) / 2 ^ bias F" by (rule rnd_upper [OF assms(1)])
  also have "\<dots> \<le> 2 ^ binade F m2 / 2 ^ bias F"
    using lt by (simp add: divide_right_mono power_increasing Suc_leI del: power_Suc)
  also have "\<dots> \<le> rnd F m2" by (rule rnd_lower [OF one])
  finally show ?thesis .
qed

lemma rnd_repr:
  assumes "0 \<le> s" and "s < 2 ^ Suc (frac_bits F)" and "1 \<le> E"
  shows "rnd F (of_int (s * 2 ^ E) / of_int (2 ^ (bias F + frac_bits F)))
     = of_int (s * 2 ^ E) / of_int (2 ^ (bias F + frac_bits F))"
proof -
  define m :: rat where "m = of_int (s * 2 ^ E) / of_int (2 ^ (bias F + frac_bits F))"
  have m: "m = of_int s * 2 ^ E / (2 ^ bias F * 2 ^ frac_bits F)"
    by (simp add: m_def power_add)
  have mb: "m * 2 ^ bias F = of_int s * 2 ^ E / 2 ^ frac_bits F" by (simp add: m)
  have "(of_int s :: rat) < of_int (2 ^ Suc (frac_bits F))"
    using assms(2) by (simp only: of_int_less_iff)
  then have "(of_int s :: rat) < 2 * 2 ^ frac_bits F" by simp
  then have "of_int s * 2 ^ E / 2 ^ frac_bits F < (2 * 2 ^ frac_bits F) * 2 ^ E / (2 ^ frac_bits F :: rat)"
    by (rule scale_strict_mono) simp_all
  then have "m * 2 ^ bias F < 2 ^ Suc E" by (simp add: mb)
  then have le: "binade F m \<le> E" using assms(3) by (rule binade_le)
  define e where "e = binade F m"
  have E: "E = e + (E - e)" using le by (simp add: e_def)
  have "m * of_int (2 ^ (bias F + frac_bits F)) / of_int (2 ^ e)
      = of_int s * 2 ^ E / 2 ^ e"
    by (simp add: m power_add)
  also have "\<dots> = of_int s * 2 ^ (E - e)"
    by (subst E) (simp add: power_add)
  also have "\<dots> = of_int (s * 2 ^ (E - e))" by simp
  finally have "sigf F m = s * 2 ^ (E - e)"
    unfolding sigf_def e_def [symmetric] by (simp only: rne_of_int)
  then have "rnd F m = of_int (s * 2 ^ (E - e)) * 2 ^ e / (2 ^ bias F * 2 ^ frac_bits F)"
    unfolding rnd_alt e_def [symmetric] by simp
  also have "\<dots> = of_int s * (2 ^ (E - e) * 2 ^ e) / (2 ^ bias F * 2 ^ frac_bits F)"
    by simp
  also have "(2::rat) ^ (E - e) * 2 ^ e = 2 ^ E"
    using le by (simp add: power_add [symmetric] e_def)
  finally show ?thesis unfolding m_def [symmetric] by (simp add: m)
qed

lemma rnd_0: "rnd F 0 = 0"
  using rnd_repr [of 0 F 1] by simp

subsection \<open>Bit patterns\<close>

lemma int_div_less:
  fixes a b c :: int
  assumes "0 < c" and "a < b * c"
  shows "a div c < b"
proof (rule ccontr)
  assume "\<not> a div c < b"
  then have "b \<le> a div c" by simp
  then have "b * c \<le> a div c * c" using assms(1) by (simp add: mult_right_mono)
  moreover have "a = a div c * c + a mod c" by simp
  moreover have "0 \<le> a mod c" using assms(1) by simp
  ultimately show False using assms(2) by linarith
qed

lemma take_bit_uint_self: "take_bit LENGTH('a) (uint (w :: 'a::len word)) = uint w"
  by (rule take_bit_int_eq_self) simp_all

lemma f_frac_alt: "f_frac F w = uint w mod 2 ^ frac_bits F"
proof -
  have "f_frac F w = take_bit (frac_bits F) (uint w)"
    by (simp only: f_frac_def unsigned_take_bit_eq)
  then show ?thesis by (simp only: take_bit_eq_mod)
qed

lemma f_exp_alt: "f_exp F w = nat (uint w div 2 ^ frac_bits F mod 2 ^ exp_bits F)"
proof -
  have "f_exp F w = nat (take_bit (exp_bits F) (drop_bit (frac_bits F) (uint w)))"
    by (simp only: f_exp_def unat_eq_nat_uint unsigned_take_bit_eq unsigned_drop_bit_eq
        take_bit_uint_self)
  then show ?thesis by (simp only: take_bit_eq_mod drop_bit_eq_div)
qed

lemma f_sign_alt: "f_sign F w = odd (uint w div 2 ^ (frac_bits F + exp_bits F))"
proof -
  have "bit w (frac_bits F + exp_bits F) = bit (uint w) (frac_bits F + exp_bits F)"
    using bit_uint_iff [of w "frac_bits F + exp_bits F"]
      bit_imp_le_length [of w "frac_bits F + exp_bits F"] by blast
  then show ?thesis by (simp only: f_sign_def bit_iff_odd)
qed

lemma uint_sign_bit:
  assumes "LENGTH('a::len) = Suc (exp_bits F + frac_bits F)"
  shows "uint (sign_bit F s :: 'a word) = (if s then 2 ^ (frac_bits F + exp_bits F) else 0)"
proof -
  have "frac_bits F + exp_bits F < LENGTH('a)" using assms by simp
  then have "(2::int) ^ (frac_bits F + exp_bits F) < 2 ^ LENGTH('a)"
    by (rule power_strict_increasing) simp
  then have "take_bit LENGTH('a) ((2::int) ^ (frac_bits F + exp_bits F))
      = 2 ^ (frac_bits F + exp_bits F)"
    by (intro take_bit_int_eq_self) simp_all
  moreover have "uint (push_bit (frac_bits F + exp_bits F) 1 :: 'a word)
      = take_bit LENGTH('a) (push_bit (frac_bits F + exp_bits F) (uint (1 :: 'a word)))"
    by (rule unsigned_push_bit_eq)
  moreover have "push_bit (frac_bits F + exp_bits F) (uint (1 :: 'a word))
      = (2::int) ^ (frac_bits F + exp_bits F)"
    by (simp only: unsigned_1 push_bit_of_1)
  ultimately have "uint (push_bit (frac_bits F + exp_bits F) 1 :: 'a word)
      = 2 ^ (frac_bits F + exp_bits F)"
    by (simp only:)
  then show ?thesis by (simp add: sign_bit_def)
qed

lemma uint_compose:
  assumes "LENGTH('a::len) = Suc (exp_bits F + frac_bits F)"
    and "0 \<le> n" and "n < 2 ^ (frac_bits F + exp_bits F)"
  shows "uint (sign_bit F s + word_of_int n :: 'a word)
     = (if s then 2 ^ (frac_bits F + exp_bits F) else 0) + n"
proof -
  have p: "(2::int) ^ LENGTH('a) = 2 * 2 ^ (frac_bits F + exp_bits F)"
    using assms(1) by (simp add: add.commute)
  have "n mod 2 ^ LENGTH('a) = n" using assms(2,3) p by simp
  then have n: "uint (word_of_int n :: 'a word) = n"
    by (simp only: uint_word_of_int)
  have "(if s then 2 ^ (frac_bits F + exp_bits F) else 0) + n < 2 * (2::int) ^ (frac_bits F + exp_bits F)"
    using assms(2,3) by (cases s) simp_all
  then have "uint (sign_bit F s :: 'a word) + uint (word_of_int n :: 'a word) < 2 ^ LENGTH('a)"
    by (simp only: n uint_sign_bit [OF assms(1)] p)
  then have "uint (sign_bit F s + word_of_int n :: 'a word)
      = uint (sign_bit F s :: 'a word) + uint (word_of_int n :: 'a word)"
    by (rule uint_add_lem [THEN iffD1])
  then show ?thesis by (simp only: n uint_sign_bit [OF assms(1)])
qed

lemma decode_compose:
  assumes "LENGTH('a::len) = Suc (exp_bits F + frac_bits F)"
    and "0 \<le> n" and "n < 2 ^ (frac_bits F + exp_bits F)"
  shows "f_frac F (sign_bit F s + word_of_int n :: 'a word) = n mod 2 ^ frac_bits F"
    and "f_exp F (sign_bit F s + word_of_int n :: 'a word) = nat (n div 2 ^ frac_bits F)"
    and "f_sign F (sign_bit F s + word_of_int n :: 'a word) = s"
proof -
  let ?w = "sign_bit F s + word_of_int n :: 'a word"
  define S :: int where "S = (if s then 2 ^ exp_bits F else 0)"
  have u: "uint ?w = S * 2 ^ frac_bits F + n"
    unfolding uint_compose [OF assms] S_def by (simp add: power_add)
  show "f_frac F ?w = n mod 2 ^ frac_bits F"
    unfolding f_frac_alt u by simp
  have d: "(S * 2 ^ frac_bits F + n) div 2 ^ frac_bits F = S + n div 2 ^ frac_bits F"
    by simp
  have lt: "n div 2 ^ frac_bits F < 2 ^ exp_bits F"
    using assms(3) by (intro int_div_less) (simp_all add: power_add mult.commute)
  have ge: "0 \<le> n div 2 ^ frac_bits F" using assms(2) by (simp add: pos_imp_zdiv_nonneg_iff)
  have "(S + n div 2 ^ frac_bits F) mod 2 ^ exp_bits F = n div 2 ^ frac_bits F"
    using lt ge by (simp add: S_def)
  then show "f_exp F ?w = nat (n div 2 ^ frac_bits F)"
    unfolding f_exp_alt u d by simp
  have u2: "uint ?w = (if s then 1 else 0) * 2 ^ (frac_bits F + exp_bits F) + n"
    unfolding uint_compose [OF assms] by simp
  have "n div 2 ^ (frac_bits F + exp_bits F) = 0" using assms(2,3) by simp
  then have "((if s then 1 else 0) * 2 ^ (frac_bits F + exp_bits F) + n)
      div 2 ^ (frac_bits F + exp_bits F) = (if s then 1 else 0)"
    by simp
  then show "f_sign F ?w = s" unfolding f_sign_alt u2 by simp
qed

subsection \<open>Negation\<close>

lemma take_bit_push_bit_beyond:
  "take_bit m (push_bit (m + n) (a :: 'a::len word)) = 0"
  by (simp add: take_bit_push_bit)

lemma take_drop_push_bit_beyond:
  "take_bit n (drop_bit m (push_bit (m + n) (a :: 'a::len word))) = 0"
  by (rule bit_eqI) (auto simp add: bit_simps)

lemma fneg_fields:
  "f_frac F (fneg F w) = f_frac F w"
  "f_exp F (fneg F w) = f_exp F w"
proof -
  have "take_bit (frac_bits F) (fneg F w) = take_bit (frac_bits F) w"
    by (simp only: fneg_def take_bit_xor take_bit_push_bit_beyond) simp
  then show "f_frac F (fneg F w) = f_frac F w" by (simp only: f_frac_def)
  have "take_bit (exp_bits F) (drop_bit (frac_bits F) (fneg F w))
      = take_bit (exp_bits F) (drop_bit (frac_bits F) w)"
    by (simp only: fneg_def take_bit_xor drop_bit_xor take_drop_push_bit_beyond) simp
  then show "f_exp F (fneg F w) = f_exp F w" by (simp only: f_exp_def)
qed

lemma fneg_sign:
  assumes "LENGTH('a::len) = Suc (exp_bits F + frac_bits F)"
  shows "f_sign F (fneg F (w :: 'a word)) = (\<not> f_sign F w)"
proof -
  have "frac_bits F + exp_bits F < LENGTH('a)" using assms by simp
  then show ?thesis by (simp add: f_sign_def fneg_def bit_simps)
qed

lemma fneg_finite: "is_finite F (fneg F w) = is_finite F w"
  by (simp add: is_finite_def fneg_fields)

lemma fneg_mag: "f_mag F (fneg F w) = f_mag F w"
  by (simp add: f_mag_def fneg_fields)

lemma fneg_val:
  assumes "LENGTH('a::len) = Suc (exp_bits F + frac_bits F)"
  shows "f_val F (fneg F (w :: 'a word)) = - f_val F w"
  by (simp add: f_val_def fneg_mag fneg_sign [OF assms])

subsection \<open>The magnitude of a finite number\<close>

lemma f_frac_range: "0 \<le> f_frac F w \<and> f_frac F w < 2 ^ frac_bits F"
  by (simp add: f_frac_alt)

lemma f_sig_range: "0 \<le> f_sig F w \<and> f_sig F w < 2 ^ Suc (frac_bits F)"
  using f_frac_range [of F w] by (simp add: f_sig_def)

lemma f_mag_alt:
  "f_mag F w = of_int (f_sig F w * 2 ^ max 1 (f_exp F w)) / of_int (2 ^ (bias F + frac_bits F))"
  by (simp add: f_mag_def f_sig_def)

lemma f_mag_nonneg: "0 \<le> f_mag F w"
  unfolding f_mag_alt using f_sig_range [of F w] by simp

lemma rnd_f_mag: "rnd F (f_mag F w) = f_mag F w"
  unfolding f_mag_alt using f_sig_range [of F w] by (intro rnd_repr) simp_all

lemma f_mag_below_overflow:
  assumes "is_finite F w" and "2 \<le> exp_bits F"
  shows "f_mag F w < 2 ^ exp_max F / 2 ^ bias F"
proof -
  have "(4::nat) \<le> 2 ^ exp_bits F"
    using power_increasing [OF assms(2), of "2::nat"] by simp
  then have M: "2 \<le> exp_max F - 1" by (simp add: exp_max_def)
  have "f_exp F w < exp_max F" using assms(1) by (simp add: is_finite_def)
  then have E: "max 1 (f_exp F w) \<le> exp_max F - 1" using M by simp
  have "(of_int (f_sig F w) :: rat) < of_int (2 ^ Suc (frac_bits F))"
    using f_sig_range [of F w] by (simp only: of_int_less_iff)
  then have "(of_int (f_sig F w) :: rat) < 2 * 2 ^ frac_bits F" by simp
  then have "of_int (f_sig F w) * 2 ^ max 1 (f_exp F w) / (2 ^ bias F * 2 ^ frac_bits F)
      < (2 * 2 ^ frac_bits F) * 2 ^ max 1 (f_exp F w) / (2 ^ bias F * 2 ^ frac_bits F :: rat)"
    by (rule scale_strict_mono) simp_all
  also have "\<dots> = 2 ^ Suc (max 1 (f_exp F w)) / 2 ^ bias F" by simp
  also have "\<dots> \<le> 2 ^ exp_max F / 2 ^ bias F"
    using E M by (intro divide_right_mono power_increasing) simp_all
  finally show ?thesis by (simp add: f_mag_alt power_add)
qed

subsection \<open>The bit pattern that rounding builds\<close>

lemma f_round_alt:
  "f_round F q =
     (if int (exp_max F) * 2 ^ frac_bits F \<le> rbits F \<bar>q\<bar> then f_inf F (q < 0)
      else sign_bit F (q < 0) + word_of_int (rbits F \<bar>q\<bar>))"
  by (simp add: f_round_def Let_def rbits_def binade_def sigf_def)

lemma rbits_nonneg: "0 \<le> m \<Longrightarrow> 0 \<le> rbits F m"
  unfolding rbits_def using binade_ge1 [of F m] sigf_nonneg [of m F] by simp

lemma exp_max_bound: "int (exp_max F) * 2 ^ frac_bits F < 2 ^ (frac_bits F + exp_bits F)"
proof -
  have "int (exp_max F) < 2 ^ exp_bits F" by (simp add: exp_max_def of_nat_diff)
  then have "int (exp_max F) * 2 ^ frac_bits F < 2 ^ exp_bits F * 2 ^ frac_bits F"
    by (simp add: mult_strict_right_mono)
  then show ?thesis by (simp add: power_add mult.commute)
qed

lemma divmod_decomp:
  fixes k p r :: int
  assumes "0 \<le> r" and "r < p"
  shows "(k * p + r) div p = k" and "(k * p + r) mod p = r"
  using assms by (simp_all add: div_pos_pos_trivial mod_pos_pos_trivial)

lemma rbits_split:
  assumes "0 \<le> m"
  shows "(rbits F m div 2 ^ frac_bits F = 0 \<longrightarrow> rbits F m mod 2 ^ frac_bits F = sigf F m
            \<and> binade F m = 1)
    \<and> (rbits F m div 2 ^ frac_bits F \<noteq> 0 \<longrightarrow>
          (2 ^ frac_bits F + rbits F m mod 2 ^ frac_bits F)
             * 2 ^ nat (rbits F m div 2 ^ frac_bits F) = sigf F m * 2 ^ binade F m)
    \<and> 0 \<le> rbits F m div 2 ^ frac_bits F"
proof -
  define e where "e = binade F m"
  define sg where "sg = sigf F m"
  define p :: int where "p = 2 ^ frac_bits F"
  have p: "0 < p" by (simp add: p_def)
  have e1: "1 \<le> e" unfolding e_def by (rule binade_ge1)
  have sg0: "0 \<le> sg" unfolding sg_def by (rule sigf_nonneg [OF assms])
  have sg2: "sg \<le> 2 * p" using sigf_upper [OF assms, of F] by (simp add: sg_def p_def)
  have sgl: "1 < e \<Longrightarrow> p \<le> sg" using sigf_lower [of F m] by (simp add: sg_def p_def e_def)
  have b: "rbits F m = (int e - 1) * p + sg" by (simp add: rbits_def e_def sg_def p_def)
  consider (sub) "sg < p" | (norm) "p \<le> sg" "sg < 2 * p" | (carry) "sg = 2 * p"
    using sg2 by linarith
  then have "(rbits F m div p = 0 \<longrightarrow> rbits F m mod p = sg \<and> e = 1)
    \<and> (rbits F m div p \<noteq> 0 \<longrightarrow> (p + rbits F m mod p) * 2 ^ nat (rbits F m div p) = sg * 2 ^ e)
    \<and> 0 \<le> rbits F m div p"
  proof cases
    case sub
    then have "e = 1" using sgl e1 by (cases "1 < e") simp_all
    then have "rbits F m = sg" by (simp add: b)
    then show ?thesis using sub sg0 \<open>e = 1\<close> by simp
  next
    case norm
    have r: "rbits F m = int e * p + (sg - p)" by (simp add: b algebra_simps)
    have "0 \<le> sg - p" "sg - p < p" using norm by simp_all
    then have d: "rbits F m div p = int e" and m: "rbits F m mod p = sg - p"
      unfolding r by (rule divmod_decomp)+
    show ?thesis using e1 by (simp add: d m)
  next
    case carry
    have "rbits F m = (int e + 1) * p" by (simp add: b carry algebra_simps)
    then have d: "rbits F m div p = int e + 1" and m: "rbits F m mod p = 0"
      using p by simp_all
    have "nat (int e + 1) = Suc e" by simp
    then show ?thesis using e1 by (simp add: d m carry)
  qed
  then show ?thesis unfolding e_def sg_def p_def .
qed

lemma f_round_finite_val:
  fixes q :: rat
  assumes "LENGTH('a::len) = Suc (exp_bits F + frac_bits F)"
    and "rbits F \<bar>q\<bar> < int (exp_max F) * 2 ^ frac_bits F"
  shows "is_finite F (f_round F q :: 'a word)"
    and "f_val F (f_round F q :: 'a word) = rv F q"
proof -
  define m where "m = \<bar>q\<bar>"
  have m0: "0 \<le> m" by (simp add: m_def)
  have lt: "rbits F m < int (exp_max F) * 2 ^ frac_bits F" using assms(2) by (simp only: m_def)
  let ?w = "sign_bit F (q < 0) + word_of_int (rbits F m) :: 'a word"
  have w: "f_round F q = ?w" using lt unfolding f_round_alt m_def [symmetric] by simp
  have n0: "0 \<le> rbits F m" by (rule rbits_nonneg [OF m0])
  have n1: "rbits F m < 2 ^ (frac_bits F + exp_bits F)"
    using lt exp_max_bound [of F] by linarith
  note dec = decode_compose [OF assms(1) n0 n1, of "q < 0"]
  note sp = rbits_split [OF m0, of F]
  have dlt: "rbits F m div 2 ^ frac_bits F < int (exp_max F)"
    using lt by (intro int_div_less) simp_all
  then show "is_finite F (f_round F q :: 'a word)"
    unfolding w is_finite_def dec using sp by linarith
  have "f_sig F ?w * 2 ^ max 1 (f_exp F ?w) = sigf F m * 2 ^ binade F m"
  proof (cases "rbits F m div 2 ^ frac_bits F = 0")
    case True
    then show ?thesis using sp by (simp add: f_sig_def dec)
  next
    case False
    then have "0 < rbits F m div 2 ^ frac_bits F" using sp by linarith
    then have mx: "max 1 (nat (rbits F m div 2 ^ frac_bits F)) = nat (rbits F m div 2 ^ frac_bits F)"
      and ne: "nat (rbits F m div 2 ^ frac_bits F) \<noteq> 0"
      by simp_all
    have "f_sig F ?w = 2 ^ frac_bits F + rbits F m mod 2 ^ frac_bits F"
      unfolding f_sig_def dec using ne by simp
    moreover have "max 1 (f_exp F ?w) = nat (rbits F m div 2 ^ frac_bits F)"
      unfolding dec by (rule mx)
    ultimately show ?thesis using sp False by (simp only:) simp
  qed
  then have mag: "f_mag F ?w = rnd F m" by (simp only: f_mag_alt rnd_def)
  have "rv F q = (if q < 0 then - rnd F m else rnd F m)"
    by (simp add: rv_def m_def)
  then show "f_val F (f_round F q :: 'a word) = rv F q"
    unfolding w f_val_def dec mag by simp
qed

lemma f_inf_not_finite:
  assumes "LENGTH('a::len) = Suc (exp_bits F + frac_bits F)"
  shows "\<not> is_finite F (f_inf F s :: 'a word)"
proof -
  have "f_exp F (sign_bit F s + word_of_int (int (exp_max F) * 2 ^ frac_bits F) :: 'a word)
      = nat (int (exp_max F) * 2 ^ frac_bits F div 2 ^ frac_bits F)"
    by (rule decode_compose [OF assms _ exp_max_bound]) simp
  then show ?thesis by (simp add: is_finite_def f_inf_def)
qed

lemma f_round_finite_imp:
  assumes "LENGTH('a::len) = Suc (exp_bits F + frac_bits F)"
    and "is_finite F (f_round F q :: 'a word)"
  shows "rbits F \<bar>q\<bar> < int (exp_max F) * 2 ^ frac_bits F"
  using assms(2) f_inf_not_finite [OF assms(1)]
  by (auto simp add: f_round_alt split: if_splits)

lemma f_zero_val:
  assumes "LENGTH('a::len) = Suc (exp_bits F + frac_bits F)" and "2 \<le> exp_bits F"
  shows "is_finite F (f_zero F s :: 'a word)" and "f_val F (f_zero F s :: 'a word) = 0"
proof -
  have z: "(f_zero F s :: 'a word) = sign_bit F s + word_of_int 0" by (simp add: f_zero_def)
  have d: "f_frac F (sign_bit F s + word_of_int 0 :: 'a word) = 0 mod 2 ^ frac_bits F"
    "f_exp F (sign_bit F s + word_of_int 0 :: 'a word) = nat (0 div 2 ^ frac_bits F)"
    by (rule decode_compose [OF assms(1)]; simp)+
  have "(2::nat) ^ 2 \<le> 2 ^ exp_bits F"
    using assms(2) by (intro power_increasing) simp_all
  then have "(0::nat) < 2 ^ exp_bits F - 1" by simp
  then show "is_finite F (f_zero F s :: 'a word)"
    unfolding z is_finite_def d by (simp add: exp_max_def)
  show "f_val F (f_zero F s :: 'a word) = 0"
    unfolding z f_val_def f_mag_def d by simp
qed

subsection \<open>Overflow\<close>

lemma exp_max_ge3: "2 \<le> exp_bits F \<Longrightarrow> 3 \<le> exp_max F"
proof -
  assume "2 \<le> exp_bits F"
  then have "(2::nat) ^ 2 \<le> 2 ^ exp_bits F" by (intro power_increasing) simp_all
  then show ?thesis by (simp add: exp_max_def)
qed

lemma rbits_below_overflow:
  assumes "2 \<le> exp_bits F" and "0 \<le> m" and "rnd F m < 2 ^ exp_max F / 2 ^ bias F"
  shows "rbits F m < int (exp_max F) * 2 ^ frac_bits F"
proof (rule ccontr)
  assume "\<not> rbits F m < int (exp_max F) * 2 ^ frac_bits F"
  then have ov: "int (exp_max F) * 2 ^ frac_bits F \<le> rbits F m" by simp
  define e where "e = binade F m"
  define sg where "sg = sigf F m"
  define p :: int where "p = 2 ^ frac_bits F"
  define M where "M = exp_max F"
  have p: "0 < p" by (simp add: p_def)
  have M3: "3 \<le> M" unfolding M_def by (rule exp_max_ge3 [OF assms(1)])
  have sg2: "sg \<le> 2 * p" using sigf_upper [OF assms(2), of F] by (simp add: sg_def p_def)
  have b: "int M * p \<le> (int e - 1) * p + sg"
    using ov by (simp add: rbits_def e_def sg_def p_def M_def)
  have "2 ^ M / 2 ^ bias F \<le> rnd F m"
  proof (cases "M \<le> e")
    case True
    then have "1 < binade F m" using M3 by (simp add: e_def)
    then have "2 ^ binade F m / 2 ^ bias F \<le> rnd F m" by (rule rnd_lower)
    moreover have "(2::rat) ^ M / 2 ^ bias F \<le> 2 ^ binade F m / 2 ^ bias F"
      using True by (intro divide_right_mono power_increasing) (simp_all add: e_def)
    ultimately show ?thesis by (rule order_trans [rotated])
  next
    case False
    then have "int e + 1 \<le> int M" by simp
    then have "(int e + 1) * p \<le> int M * p" using p by (simp add: mult_right_mono)
    then have "(int e + 1) * p \<le> (int e - 1) * p + sg" using b by linarith
    then have "2 * p \<le> sg" by (simp add: algebra_simps)
    then have sg: "sg = 2 * p" using sg2 by simp
    have "int M * p \<le> (int e + 1) * p" using b by (simp add: sg algebra_simps)
    then have "int M \<le> int e + 1" using p by (simp add: mult_le_cancel_right)
    then have M: "M = Suc e" using False by simp
    have "rnd F m = of_int (2 * 2 ^ frac_bits F) * 2 ^ e / (2 ^ bias F * 2 ^ frac_bits F)"
      unfolding rnd_alt e_def [symmetric] sg_def [symmetric] sg p_def by simp
    also have "\<dots> = 2 ^ M / 2 ^ bias F" by (simp add: M)
    finally show ?thesis by simp
  qed
  then show False using assms(3) by (simp add: M_def)
qed

subsection \<open>Rounding a signed value\<close>

lemma rv_mono:
  assumes "q1 \<le> q2"
  shows "rv F q1 \<le> rv F q2"
proof -
  consider (neg) "q2 < 0" | (mixed) "q1 < 0" "0 \<le> q2" | (pos) "0 \<le> q1"
    using assms by linarith
  then show ?thesis
  proof cases
    case neg
    then have "rnd F (- q2) \<le> rnd F (- q1)" using assms by (intro rnd_mono) simp_all
    then show ?thesis using neg assms by (simp add: rv_def)
  next
    case mixed
    have "0 \<le> rnd F (- q1)" "0 \<le> rnd F q2" using mixed by (simp_all add: rnd_nonneg)
    then show ?thesis using mixed by (simp add: rv_def)
  next
    case pos
    then have "rnd F q1 \<le> rnd F q2" using assms by (intro rnd_mono) simp_all
    then show ?thesis using pos assms by (simp add: rv_def)
  qed
qed

lemma rv_f_val: "rv F (f_val F w) = f_val F w"
proof (cases "f_val F w < 0")
  case True
  then have s: "f_val F w = - f_mag F w"
    using f_mag_nonneg [of F w] by (simp add: f_val_def split: if_splits)
  show ?thesis using True by (simp add: rv_def s rnd_f_mag)
next
  case False
  then have s: "f_val F w = f_mag F w"
    using f_mag_nonneg [of F w] by (simp add: f_val_def split: if_splits)
  show ?thesis using False by (simp add: rv_def s rnd_f_mag)
qed

lemma abs_f_val: "\<bar>f_val F w\<bar> = f_mag F w"
  using f_mag_nonneg [of F w] by (simp add: f_val_def)

lemma rnd_abs: "rnd F \<bar>q\<bar> = \<bar>rv F q\<bar>"
proof (cases "q < 0")
  case True
  then have "0 \<le> rnd F (- q)" by (intro rnd_nonneg) simp
  then show ?thesis using True by (simp add: rv_def)
next
  case False
  then have "0 \<le> rnd F q" by (intro rnd_nonneg) simp
  then show ?thesis using False by (simp add: rv_def)
qed

lemma rnd_idem: "0 \<le> m \<Longrightarrow> rnd F (rnd F m) = rnd F m"
proof -
  assume m: "0 \<le> m"
  show ?thesis
  proof (cases "sigf F m < 2 ^ Suc (frac_bits F)")
    case True
    then show ?thesis unfolding rnd_def [of F m]
      by (intro rnd_repr sigf_nonneg [OF m] binade_ge1) 
  next
    case False
    then have s: "sigf F m = 2 ^ Suc (frac_bits F)" using sigf_upper [OF m, of F] by simp
    have "rnd F m = of_int (2 ^ frac_bits F * 2 ^ Suc (binade F m)) / of_int (2 ^ (bias F + frac_bits F))"
      by (simp add: rnd_def s)
    moreover have "rnd F (of_int (2 ^ frac_bits F * 2 ^ Suc (binade F m)) / of_int (2 ^ (bias F + frac_bits F)))
        = of_int (2 ^ frac_bits F * 2 ^ Suc (binade F m)) / of_int (2 ^ (bias F + frac_bits F))"
      by (rule rnd_repr) simp_all
    ultimately show ?thesis by simp
  qed
qed

subsection \<open>Operations on finite numbers\<close>

lemma finite_not_special: "is_finite F x \<Longrightarrow> \<not> is_nan F x \<and> \<not> is_inf F x"
  by (simp add: is_finite_def is_nan_def is_inf_def)

lemma rv_0: "rv F 0 = 0"
  by (simp add: rv_def rnd_0)

lemma round_or_zero:
  fixes q :: rat
  assumes "LENGTH('a::len) = Suc (exp_bits F + frac_bits F)" and "2 \<le> exp_bits F"
    and "\<bar>rv F q\<bar> < 2 ^ exp_max F / 2 ^ bias F"
  shows "is_finite F (if q = 0 then f_zero F s else f_round F q :: 'a word)
    \<and> f_val F (if q = 0 then f_zero F s else f_round F q :: 'a word) = rv F q"
proof (cases "q = 0")
  case True
  then show ?thesis using f_zero_val [OF assms(1,2)] by (simp add: rv_0)
next
  case False
  have "rnd F \<bar>q\<bar> < 2 ^ exp_max F / 2 ^ bias F" using assms(3) by (simp only: rnd_abs)
  then have "rbits F \<bar>q\<bar> < int (exp_max F) * 2 ^ frac_bits F"
    by (intro rbits_below_overflow [OF assms(2)]) simp_all
  then show ?thesis using False f_round_finite_val [OF assms(1)] by simp
qed

lemma round_or_zero_conv:
  fixes q :: rat
  assumes "LENGTH('a::len) = Suc (exp_bits F + frac_bits F)" and "2 \<le> exp_bits F"
    and "is_finite F (if q = 0 then f_zero F s else f_round F q :: 'a word)"
  shows "f_val F (if q = 0 then f_zero F s else f_round F q :: 'a word) = rv F q"
proof (cases "q = 0")
  case True
  then show ?thesis using f_zero_val [OF assms(1,2)] by (simp add: rv_0)
next
  case False
  then have "is_finite F (f_round F q :: 'a word)" using assms(3) by simp
  then have "rbits F \<bar>q\<bar> < int (exp_max F) * 2 ^ frac_bits F"
    by (rule f_round_finite_imp [OF assms(1)])
  then show ?thesis using False f_round_finite_val [OF assms(1)] by simp
qed

lemma fadd_finite:
  fixes x y :: "'a::len word"
  assumes "LENGTH('a) = Suc (exp_bits F + frac_bits F)" and "2 \<le> exp_bits F"
    and "is_finite F x" and "is_finite F y"
    and "\<bar>rv F (f_val F x + f_val F y)\<bar> < 2 ^ exp_max F / 2 ^ bias F"
  shows "is_finite F (fadd F x y)" and "f_val F (fadd F x y) = rv F (f_val F x + f_val F y)"
  using round_or_zero [OF assms(1,2,5), of "f_sign F x \<and> f_sign F y"]
    finite_not_special [OF assms(3)] finite_not_special [OF assms(4)]
  by (simp_all add: fadd_def Let_def)

lemma fadd_finite_conv:
  fixes x y :: "'a::len word"
  assumes "LENGTH('a) = Suc (exp_bits F + frac_bits F)" and "2 \<le> exp_bits F"
    and "is_finite F x" and "is_finite F y" and "is_finite F (fadd F x y)"
  shows "f_val F (fadd F x y) = rv F (f_val F x + f_val F y)"
proof -
  have e: "fadd F x y = (if f_val F x + f_val F y = 0 then f_zero F (f_sign F x \<and> f_sign F y)
      else f_round F (f_val F x + f_val F y))"
    using finite_not_special [OF assms(3)] finite_not_special [OF assms(4)]
    by (simp add: fadd_def Let_def)
  show ?thesis
    using assms(5) unfolding e by (rule round_or_zero_conv [OF assms(1,2)])
qed

lemma fsub_finite_conv:
  fixes x y :: "'a::len word"
  assumes "LENGTH('a) = Suc (exp_bits F + frac_bits F)" and "2 \<le> exp_bits F"
    and "is_finite F x" and "is_finite F y" and "is_finite F (fsub F x y)"
  shows "f_val F (fsub F x y) = rv F (f_val F x - f_val F y)"
proof -
  have "is_finite F (fneg F y)" using assms(4) by (simp add: fneg_finite)
  then have "f_val F (fadd F x (fneg F y)) = rv F (f_val F x + f_val F (fneg F y))"
    using assms(5) by (intro fadd_finite_conv [OF assms(1,2,3)]) (simp_all add: fsub_def)
  then show ?thesis by (simp add: fsub_def fneg_val [OF assms(1)])
qed

lemma fmul_finite:
  fixes x y :: "'a::len word"
  assumes "LENGTH('a) = Suc (exp_bits F + frac_bits F)" and "2 \<le> exp_bits F"
    and "is_finite F x" and "is_finite F y"
    and "\<bar>rv F (f_val F x * f_val F y)\<bar> < 2 ^ exp_max F / 2 ^ bias F"
  shows "is_finite F (fmul F x y)" and "f_val F (fmul F x y) = rv F (f_val F x * f_val F y)"
  using round_or_zero [OF assms(1,2,5), of "f_sign F x \<noteq> f_sign F y"]
    finite_not_special [OF assms(3)] finite_not_special [OF assms(4)]
  by (simp_all add: fmul_def Let_def)

subsection \<open>The product with a sample below one\<close>

lemma f_val_grid: "\<exists>k::int. f_val F w = of_int k * 2 / 2 ^ (bias F + frac_bits F)"
proof -
  define E where "E = max 1 (f_exp F w)"
  have E: "E = Suc (E - 1)" by (simp add: E_def)
  have "f_mag F w = of_int (f_sig F w * 2 ^ (E - 1)) * 2 / 2 ^ (bias F + frac_bits F)"
    unfolding f_mag_alt E_def [symmetric] by (subst E) simp
  then have "f_val F w = of_int (if f_sign F w then - (f_sig F w * 2 ^ (E - 1)) else f_sig F w * 2 ^ (E - 1))
      * 2 / 2 ^ (bias F + frac_bits F)"
    by (simp add: f_val_def)
  then show ?thesis by blast
qed

lemma product_below:
  fixes x V :: rat
  assumes "0 < x" and "x = of_int k * 2 / 2 ^ (bias F + frac_bits F)"
    and "0 \<le> V" and "V \<le> 1 - 1 / 2 ^ Suc (frac_bits F)"
  shows "rnd F (V * rnd F x) \<le> x"
proof -
  define e where "e = binade F x"
  define P :: rat where "P = 2 ^ (bias F + frac_bits F)"
  define t where "t = x * P / 2 ^ e"
  define s where "s = sigf F x"
  define D where "D = rnd F x"
  define y where "y = V * D"
  have P: "0 < P" by (simp add: P_def)
  have PB: "P = 2 ^ bias F * 2 ^ frac_bits F" by (simp add: P_def power_add)
  have e1: "1 \<le> e" unfolding e_def by (rule binade_ge1)
  have s: "s = rne t" by (simp add: s_def sigf_def t_def P_def e_def)
  have D: "D = of_int s * 2 ^ e / P" by (simp add: D_def rnd_def s_def e_def P_def)
  have x: "x = t * 2 ^ e / P" using P by (simp add: t_def)
  have x0: "0 \<le> x" using assms(1) by simp
  have D0: "0 \<le> D" unfolding D_def by (rule rnd_nonneg [OF x0])
  have "(0::rat) \<le> 1 / 2 ^ Suc (frac_bits F)" by simp
  then have V1: "V \<le> 1" using assms(4) by linarith
  have y0: "0 \<le> y" unfolding y_def using assms(3) D0 by simp
  have "V * D \<le> 1 * D" using V1 D0 by (rule mult_right_mono)
  then have yD: "y \<le> D" by (simp add: y_def)
  have up: "of_int z * 2 ^ e / P \<le> x" if "of_int z \<le> t" for z :: int
    unfolding x using that P by (intro scale_mono) simp_all
  show ?thesis
  proof (cases "of_int s \<le> t")
    case True
    have "rnd F y \<le> rnd F D" using y0 yD by (rule rnd_mono)
    also have "\<dots> = D" unfolding D_def by (rule rnd_idem [OF x0])
    also have "\<dots> \<le> x" unfolding D by (rule up [OF True])
    finally show ?thesis unfolding y_def D_def .
  next
    case False
    then have ts: "t < of_int s" by simp
    have e2: "1 < e"
    proof (rule ccontr)
      assume "\<not> 1 < e"
      then have "e = 1" using e1 by simp
      then have "t = of_int k" using P by (simp add: t_def assms(2) P_def)
      then have "of_int s = t" by (simp add: s rne_of_int)
      then show False using ts by simp
    qed
    then have b2: "1 < binade F x" by (simp add: e_def)
    have tl: "2 ^ frac_bits F \<le> t"
      using sig_arg_lower [OF b2] by (simp add: t_def P_def e_def)
    have slr: "(2 ^ frac_bits F :: rat) < of_int s" using tl ts by (rule le_less_trans)
    then have sl: "2 ^ frac_bits F < s" by simp
    have su: "s \<le> 2 ^ Suc (frac_bits F)" unfolding s_def by (rule sigf_upper [OF x0])
    have "(of_int s :: rat) \<le> of_int (2 ^ Suc (frac_bits F))" using su by (simp only: of_int_le_iff)
    then have sur: "(of_int s :: rat) \<le> 2 ^ Suc (frac_bits F)" by simp
    have "s \<le> \<lfloor>t\<rfloor> + 1" using rne_floor [of t] by (simp add: s)
    then have "s - 1 \<le> \<lfloor>t\<rfloor>" by simp
    then have "(of_int (s - 1) :: rat) \<le> of_int \<lfloor>t\<rfloor>" by (simp only: of_int_le_iff)
    then have s1: "of_int (s - 1) \<le> t" using of_int_floor_le [of t] by (rule order_trans)
    have "(0::int) < 2 ^ frac_bits F" by simp
    then have spos: "0 < s" using sl by (rule less_trans)
    have Dpos: "0 < D" unfolding D using spos P by (simp add: zero_less_mult_iff)
    have "y * 2 ^ bias F \<le> (1 - 1 / 2 ^ Suc (frac_bits F)) * D * 2 ^ bias F"
      unfolding y_def using assms(4) D0 by (intro mult_right_mono) simp_all
    also have "\<dots> < D * 2 ^ bias F" using Dpos by simp
    also have "D * 2 ^ bias F = of_int s * 2 ^ e / 2 ^ frac_bits F"
      unfolding D PB by simp
    also have "\<dots> \<le> 2 ^ Suc (frac_bits F) * 2 ^ e / 2 ^ frac_bits F"
      using sur by (intro divide_right_mono mult_right_mono) simp_all
    also have "\<dots> = 2 ^ Suc e" by simp
    finally have "y * 2 ^ bias F < 2 ^ Suc e" .
    then have ble: "binade F y \<le> e" using e1 by (rule binade_le)
    show ?thesis
    proof (cases "binade F y = e")
      case True
      have "y * of_int (2 ^ (bias F + frac_bits F)) / of_int (2 ^ binade F y) = y * P / 2 ^ e"
        by (simp add: True P_def)
      also have "\<dots> = V * of_int s" using P by (simp add: y_def D)
      finally have arg: "y * of_int (2 ^ (bias F + frac_bits F)) / of_int (2 ^ binade F y) = V * of_int s" .
      have half: "(1::rat) / 2 < of_int s / 2 ^ Suc (frac_bits F)"
      proof -
        have "(2 ^ frac_bits F :: rat) / 2 ^ Suc (frac_bits F) < of_int s / 2 ^ Suc (frac_bits F)"
          using slr by (intro divide_strict_right_mono) simp_all
        then show ?thesis by simp
      qed
      have "V * of_int s \<le> (1 - 1 / 2 ^ Suc (frac_bits F)) * of_int s"
        using assms(4) spos by (intro mult_right_mono) simp_all
      also have "\<dots> = of_int s - of_int s / 2 ^ Suc (frac_bits F)" by (simp add: algebra_simps)
      also have "\<dots> < of_int (s - 1) + 1 / 2" using half by simp
      finally have "rne (V * of_int s) \<le> s - 1" by (rule rne_below_half)
      then have "sigf F y \<le> s - 1" by (simp only: sigf_def arg)
      then have "(of_int (sigf F y) :: rat) \<le> of_int (s - 1)" by (simp only: of_int_le_iff)
      then have "of_int (sigf F y) * 2 ^ e / P \<le> of_int (s - 1) * 2 ^ e / P"
        using P by (intro scale_mono) simp_all
      also have "\<dots> \<le> x" by (rule up [OF s1])
      finally have "of_int (sigf F y) * 2 ^ e / P \<le> x" .
      moreover have "rnd F y = of_int (sigf F y) * 2 ^ e / P" by (simp add: rnd_def True P_def)
      ultimately have "rnd F y \<le> x" by simp
      then show ?thesis unfolding y_def D_def .
    next
      case False
      then have lt: "Suc (binade F y) \<le> e" using ble by simp
      have "rnd F y \<le> 2 ^ Suc (binade F y) / 2 ^ bias F" by (rule rnd_upper [OF y0])
      also have "\<dots> \<le> 2 ^ e / 2 ^ bias F"
        using lt by (intro divide_right_mono power_increasing) simp_all
      also have "\<dots> = of_int (2 ^ frac_bits F) * 2 ^ e / P" by (simp add: PB)
      also have "\<dots> \<le> x" by (rule up) (use tl in simp)
      finally show ?thesis unfolding y_def D_def .
    qed
  qed
qed

subsection \<open>The rescaled sample lies between the bounds\<close>

text \<open>
  With each of the three operations rounded on its own, \<open>v * (b - a) + a\<close> can reach
  \<open>b\<close> but cannot pass it: for finite bounds \<open>a < b\<close> whose difference does not
  overflow and a sample of \<open>[0, 1)\<close>, the rounded product is at most the exact
  \<open>b - a\<close>, and the rounded sum lies in the closed interval from \<open>a\<close> to \<open>b\<close>.
\<close>

lemma bias_ge1: "2 \<le> exp_bits F \<Longrightarrow> 1 \<le> bias F"
proof -
  assume "2 \<le> exp_bits F"
  then have "1 \<le> exp_bits F - 1" by simp
  then have "(2::nat) ^ 1 \<le> 2 ^ (exp_bits F - 1)" by (intro power_increasing) simp_all
  then show ?thesis by (simp add: bias_def)
qed

lemma unit_sample_bound:
  assumes "2 \<le> exp_bits F" and "unit_sample F v"
  shows "f_val F v \<le> 1 - 1 / 2 ^ Suc (frac_bits F)"
proof -
  define E where "E = max 1 (f_exp F v)"
  define B where "B = bias F"
  define fb where "fb = frac_bits F"
  define sg where "sg = f_sig F v"
  define N where "N = sg * 2 ^ E"
  have B1: "B = Suc (B - 1)" using bias_ge1 [OF assms(1)] by (simp add: B_def)
  have v: "0 \<le> f_val F v" "f_val F v < 1" using assms(2) by (simp_all add: unit_sample_def)
  have "f_val F v = \<bar>f_val F v\<bar>" using v(1) by simp
  also have "\<dots> = f_mag F v" by (rule abs_f_val)
  also have "\<dots> = of_int N / of_int (2 ^ (B + fb))"
    by (simp add: f_mag_alt N_def sg_def E_def B_def fb_def)
  finally have val: "f_val F v = of_int N / of_int (2 ^ (B + fb))" .
  have "(of_int N :: rat) < of_int (2 ^ (B + fb))"
    using v(2) unfolding val by (simp add: divide_less_eq)
  then have lt: "N < 2 ^ (B + fb)" by (simp only: of_int_less_iff)
  have sg: "0 \<le> sg" "sg \<le> 2 ^ Suc fb - 1"
    using f_sig_range [of F v] by (simp_all add: sg_def fb_def)
  have N: "N \<le> 2 ^ (B + fb) - 2 ^ (B - 1)"
  proof (cases "E < B")
    case True
    then have "E \<le> B - 1" by simp
    then have "(2::int) ^ E \<le> 2 ^ (B - 1)" by (intro power_increasing) simp_all
    then have "sg * 2 ^ E \<le> (2 ^ Suc fb - 1) * 2 ^ (B - 1)"
      using sg by (intro mult_mono) simp_all
    also have "\<dots> = 2 ^ (Suc (B - 1) + fb) - 2 ^ (B - 1)"
      by (simp add: algebra_simps power_add)
    also have "\<dots> = 2 ^ (B + fb) - 2 ^ (B - 1)" using B1 by simp
    finally show ?thesis by (simp add: N_def)
  next
    case False
    define k where "k = E - B"
    have E: "E = k + B" using False by (simp add: k_def)
    have "sg * 2 ^ k * 2 ^ B < 2 ^ fb * 2 ^ B"
      using lt by (simp add: N_def E power_add mult.assoc mult.commute)
    then have "sg * 2 ^ k < 2 ^ fb" by simp
    then have "sg * 2 ^ k \<le> 2 ^ fb - 1" by simp
    then have "sg * 2 ^ k * 2 ^ B \<le> (2 ^ fb - 1) * 2 ^ B" by (intro mult_right_mono) simp_all
    also have "\<dots> = 2 ^ (B + fb) - 2 ^ B" by (simp add: algebra_simps power_add)
    also have "\<dots> \<le> 2 ^ (B + fb) - 2 ^ (B - 1)"
    proof -
      have "(2::int) ^ (B - 1) \<le> 2 ^ B" by (intro power_increasing) simp_all
      then show ?thesis by simp
    qed
    finally show ?thesis by (simp add: N_def E power_add mult.assoc)
  qed
  define P :: rat where "P = 2 ^ (B + fb)"
  have P: "0 < P" by (simp add: P_def)
  have "(of_int N :: rat) \<le> of_int (2 ^ (B + fb) - 2 ^ (B - 1))"
    using N by (simp only: of_int_le_iff)
  then have "(of_int N :: rat) \<le> P - 2 ^ (B - 1)" by (simp add: P_def)
  then have "of_int N / P \<le> (P - 2 ^ (B - 1)) / P" using P by (intro divide_right_mono) simp_all
  also have "\<dots> = 1 - 2 ^ (B - 1) / P" using P by (simp add: diff_divide_distrib)
  also have "2 ^ (B - 1) / P = 1 / 2 ^ Suc fb"
  proof -
    have "P = 2 ^ (B - 1) * 2 ^ Suc fb"
      unfolding P_def by (subst B1) (simp add: power_add)
    then show ?thesis by simp
  qed
  finally show ?thesis by (simp add: val P_def fb_def)
qed

lemma rv_nonneg: "0 \<le> q \<Longrightarrow> rv F q = rnd F q"
  by (simp add: rv_def)

lemma scaled_between:
  fixes a b v :: "'a::len word"
  assumes wf: "LENGTH('a) = Suc (exp_bits F + frac_bits F)" "2 \<le> exp_bits F"
    and a: "is_finite F a" and b: "is_finite F b" and ab: "f_val F a < f_val F b"
    and d: "is_finite F (fsub F b a)" and v: "unit_sample F v"
  shows "is_finite F (scaled F a b v)
    \<and> f_val F a \<le> f_val F (scaled F a b v) \<and> f_val F (scaled F a b v) \<le> f_val F b"
proof -
  define x where "x = f_val F b - f_val F a"
  define V where "V = f_val F v"
  define D where "D = rnd F x"
  define T :: rat where "T = 2 ^ exp_max F / 2 ^ bias F"
  define q where "q = V * D"
  have x: "0 < x" using ab by (simp add: x_def)
  then have x0: "0 \<le> x" by simp
  have fv: "is_finite F v" using v by (simp add: unit_sample_def)
  have V0: "0 \<le> V" using v by (simp add: unit_sample_def V_def)
  have V1: "V \<le> 1 - 1 / 2 ^ Suc (frac_bits F)"
    unfolding V_def by (rule unit_sample_bound [OF wf(2) v])
  have "(0::rat) \<le> 1 / 2 ^ Suc (frac_bits F)" by simp
  then have V2: "V \<le> 1" using V1 by linarith
  have dv: "f_val F (fsub F b a) = D"
    using fsub_finite_conv [OF wf b a d] x0 by (simp add: x_def D_def rv_nonneg)
  have D0: "0 \<le> D" unfolding D_def by (rule rnd_nonneg [OF x0])
  have "D = \<bar>f_val F (fsub F b a)\<bar>" using D0 dv by simp
  also have "\<dots> = f_mag F (fsub F b a)" by (rule abs_f_val)
  also have "\<dots> < T" unfolding T_def by (rule f_mag_below_overflow [OF d wf(2)])
  finally have DT: "D < T" .
  have q0: "0 \<le> q" using V0 D0 by (simp add: q_def)
  have "V * D \<le> 1 * D" using V2 D0 by (rule mult_right_mono)
  then have qD: "q \<le> D" by (simp add: q_def)
  have "rnd F q \<le> rnd F D" using q0 qD by (rule rnd_mono)
  also have "\<dots> = D" unfolding D_def by (rule rnd_idem [OF x0])
  finally have rqD: "rnd F q \<le> D" .
  have rq0: "0 \<le> rnd F q" by (rule rnd_nonneg [OF q0])
  have "\<bar>rv F (f_val F v * f_val F (fsub F b a))\<bar> < T"
    using rq0 rqD DT q0 by (simp add: dv V_def [symmetric] q_def [symmetric] rv_nonneg)
  then have ov: "\<bar>rv F (f_val F v * f_val F (fsub F b a))\<bar> < 2 ^ exp_max F / 2 ^ bias F"
    by (simp add: T_def)
  have pf: "is_finite F (fmul F v (fsub F b a))" by (rule fmul_finite(1) [OF wf fv d ov])
  have "f_val F (fmul F v (fsub F b a)) = rv F (f_val F v * f_val F (fsub F b a))"
    by (rule fmul_finite(2) [OF wf fv d ov])
  then have pv: "f_val F (fmul F v (fsub F b a)) = rnd F q"
    using q0 by (simp add: dv V_def [symmetric] q_def [symmetric] rv_nonneg)
  obtain ka :: int where ka: "f_val F a = of_int ka * 2 / 2 ^ (bias F + frac_bits F)"
    using f_val_grid [of F a] by blast
  obtain kb :: int where kb: "f_val F b = of_int kb * 2 / 2 ^ (bias F + frac_bits F)"
    using f_val_grid [of F b] by blast
  have grid: "x = of_int (kb - ka) * 2 / 2 ^ (bias F + frac_bits F)"
    by (simp add: x_def ka kb diff_divide_distrib algebra_simps)
  have rqx: "rnd F q \<le> x"
    unfolding q_def D_def by (rule product_below [OF x grid V0 V1])
  define s where "s = rnd F q + f_val F a"
  have lo: "f_val F a \<le> s" using rq0 by (simp add: s_def)
  have hi: "s \<le> f_val F b" using rqx by (simp add: s_def x_def)
  have rlo: "f_val F a \<le> rv F s" using rv_mono [OF lo, of F] by (simp add: rv_f_val)
  have rhi: "rv F s \<le> f_val F b" using rv_mono [OF hi, of F] by (simp add: rv_f_val)
  have aT: "\<bar>f_val F a\<bar> < T" unfolding abs_f_val T_def by (rule f_mag_below_overflow [OF a wf(2)])
  have bT: "\<bar>f_val F b\<bar> < T" unfolding abs_f_val T_def by (rule f_mag_below_overflow [OF b wf(2)])
  have "\<bar>rv F s\<bar> < T" using rlo rhi aT bT by linarith
  then have ov2: "\<bar>rv F (f_val F (fmul F v (fsub F b a)) + f_val F a)\<bar> < 2 ^ exp_max F / 2 ^ bias F"
    by (simp add: pv s_def T_def)
  have "is_finite F (fadd F (fmul F v (fsub F b a)) a)" by (rule fadd_finite(1) [OF wf pf a ov2])
  moreover have "f_val F (fadd F (fmul F v (fsub F b a)) a) = rv F s"
    using fadd_finite(2) [OF wf pf a ov2] by (simp add: pv s_def)
  ultimately show ?thesis using rlo rhi by (simp add: scaled_def)
qed

section \<open>Properties of the floating-point range transforms\<close>

lemma fless_finite:
  "is_finite F x \<Longrightarrow> is_finite F y \<Longrightarrow> fless F x y = (f_val F x < f_val F y)"
  by (simp add: fless_def is_finite_def is_nan_def is_inf_def)

lemma fless_irrefl: "\<not> fless F x x"
  by (simp add: fless_def)

lemma ev_bounds:
  "fsub binary32 0x40000000 0x3F800000 = (0x3F800000 :: 32 word)"
  "fmul binary32 0x3F7FFFFF 0x3F800000 = (0x3F7FFFFF :: 32 word)"
  "fadd binary32 0x3F7FFFFF 0x3F800000 = (0x40000000 :: 32 word)"
  by code_simp+

lemma ev_compare:
  "fless binary32 (0x3F800000 :: 32 word) 0x40000000"
  "\<not> fless binary32 (0x40000000 :: 32 word) 0x3F800000"
  "unit_sample binary32 (0x3F7FFFFF :: 32 word)"
  "is_finite binary32 (0x3F800000 :: 32 word)"
  "is_finite binary32 (0x40000000 :: 32 word)"
  by code_simp+

lemma ev_values:
  "f_val binary32 (0x3F800000 :: 32 word) = 1"
  "f_val binary32 (0x40000000 :: 32 word) = 2"
  "f_val binary32 (0x3F7FFFFF :: 32 word) = 1 - 1 / 2 ^ 24"
  by code_simp+

lemma ev_scaled: "scaled binary32 0x3F800000 0x40000000 (0x3F7FFFFF :: 32 word) = 0x40000000"
  by (simp add: scaled_def ev_bounds)

lemma ev_scaled_clamped:
  "scaled_clamped binary32 0x3F800000 0x40000000 (0x3F7FFFFF :: 32 word) = 0x40000000"
  by (simp add: scaled_clamped_def ev_scaled ev_compare fless_irrefl)


lemma schedule_1: "schedule 1 [0]"
  by code_simp

text \<open>
  Claim C1, at a concrete input. The accurate variant computes \<open>v * (b - a) + a\<close>
  and clamps a result below \<open>a\<close> to \<open>a\<close> and a result above \<open>b\<close> to \<open>b\<close>; its
  result is therefore never above \<open>b\<close>, but it can be \<open>b\<close> itself, which is outside
  \<open>[a, b)\<close>. For \<open>float\<close> bounds \<open>a = 1\<close> (\<open>0x3F800000\<close>) and \<open>b = 2\<close>
  (\<open>0x40000000\<close>) and the sample \<open>1 - 2^-24\<close> (\<open>0x3F7FFFFF\<close>, the largest
  \<open>float\<close> below 1), \<open>b - a\<close> and the product are exact, the sum \<open>2 - 2^-24\<close>
  lies halfway between two neighbouring numbers and rounds to the even one, \<open>2\<close>,
  and neither comparison of the clamp holds: both variants leave \<open>2 = b\<close> in the
  cell.
\<close>

theorem range_transform_fp_accurate_returns_upper_bound:
  "range_transform_fp_accurate binary32 [0] 0x3F800000 0x40000000 1 [0x3F7FFFFF :: 32 word]
     = Some [0x40000000]
   \<and> map_option (\<lambda>m. m 0)
       (range_transform_fp_accurate_usm binary32 [0] 0x3F800000 0x40000000 1 0
          (\<lambda>_. 0x3F7FFFFF :: 32 word)) = Some 0x40000000
   \<and> schedule 1 [0]
   \<and> f_val binary32 (0x3F800000 :: 32 word) = 1
   \<and> f_val binary32 (0x40000000 :: 32 word) = 2
   \<and> f_val binary32 (0x3F7FFFFF :: 32 word) = 1 - 1 / 2 ^ 24
   \<and> fless binary32 (0x3F800000 :: 32 word) 0x40000000
   \<and> unit_sample binary32 (0x3F7FFFFF :: 32 word)
   \<and> \<not> fless binary32 (0x40000000 :: 32 word) 0x40000000"
proof -
  have "range_transform_fp_accurate binary32 [0] 0x3F800000 0x40000000 1 [0x3F7FFFFF :: 32 word]
     = Some [0x40000000]"
    by (simp add: range_transform_fp_accurate_def parallel_for_def Let_def ev_bounds ev_compare
        fless_irrefl)
  moreover have "map_option (\<lambda>m. m 0)
       (range_transform_fp_accurate_usm binary32 [0] 0x3F800000 0x40000000 1 0
          (\<lambda>_. 0x3F7FFFFF :: 32 word)) = Some 0x40000000"
    by (simp add: range_transform_fp_accurate_usm_def parallel_for_def Let_def ev_bounds
        ev_compare fless_irrefl)
  ultimately show ?thesis
    using ev_values ev_compare schedule_1 by (simp add: fless_irrefl)
qed

text \<open>
  Claim C3, at a concrete input. The plain transform computes \<open>v * (b - a) + a\<close> and
  stores it; its comment gives the range as \<open>[a, b)\<close>, with \<open>b\<close> exclusive. For
  \<open>float\<close> bounds \<open>a = 1\<close> and \<open>b = 2\<close> and the sample \<open>1 - 2^-24\<close> of \<open>[0, 1)\<close>,
  both variants return and leave \<open>2 = b\<close> in the cell, and \<open>b\<close> is not less than \<open>b\<close>:
  the element is outside \<open>[a, b)\<close>.
\<close>

theorem range_transform_fp_returns_upper_bound:
  "range_transform_fp binary32 [0] 0x3F800000 0x40000000 1 [0x3F7FFFFF :: 32 word]
     = Some [0x40000000]
   \<and> map_option (\<lambda>m. m 0)
       (range_transform_fp_usm binary32 [0] 0x3F800000 0x40000000 1 0
          (\<lambda>_. 0x3F7FFFFF :: 32 word)) = Some 0x40000000
   \<and> schedule 1 [0]
   \<and> fless binary32 (0x3F800000 :: 32 word) 0x40000000
   \<and> unit_sample binary32 (0x3F7FFFFF :: 32 word)
   \<and> \<not> fless binary32 (0x40000000 :: 32 word) 0x40000000
   \<and> \<not> f_val binary32 (0x40000000 :: 32 word) < f_val binary32 (0x40000000 :: 32 word)"
proof -
  have "range_transform_fp binary32 [0] 0x3F800000 0x40000000 1 [0x3F7FFFFF :: 32 word]
     = Some [0x40000000]"
    by (simp add: range_transform_fp_def parallel_for_def ev_bounds)
  moreover have "map_option (\<lambda>m. m 0)
       (range_transform_fp_usm binary32 [0] 0x3F800000 0x40000000 1 0
          (\<lambda>_. 0x3F7FFFFF :: 32 word)) = Some 0x40000000"
    by (simp add: range_transform_fp_usm_def parallel_for_def ev_bounds)
  ultimately show ?thesis
    using ev_compare schedule_1 by (simp add: fless_irrefl)
qed

section \<open>Properties shared by the transforms\<close>

lemma range_transform_int_same_bounds:
  "0 < n \<Longrightarrow> range_transform_int order a a n inb out bufs = None"
  "0 < n \<Longrightarrow> range_transform_int_usm order' a a n inp outp mem = None"
  by (simp_all add: range_transform_int_def range_transform_int_usm_def)

text \<open>
  Claim C8. For each of the four transforms, the buffer variant and the USM variant
  compute the same output: when the USM array holds the values of the buffer, then
  for every choice of bounds or probability, every count \<open>n\<close>, every index \<open>i\<close>
  below \<open>n\<close> and any two schedules, output element \<open>i\<close> of the buffer variant is
  output cell \<open>i\<close> of the USM variant. Both variants return (the integer transform
  when its bounds differ; with equal bounds both divide by zero and neither returns).
\<close>

theorem buffer_and_usm_variants_agree:
  assumes "0 \<le> n" and "schedule n order" and "schedule n order'" and "i < nat n"
    and "n \<le> int (length r)" and "\<forall>j < nat n. mem (p + j) = r ! j"
    and "n \<le> int (length (bufs inb))" and "n \<le> int (length (bufs out))"
    and "usm_compatible inp outp n" and "\<forall>j < nat n. umem (inp + j) = bufs inb ! j"
  shows "map_option (\<lambda>res. res ! i) (range_transform_fp F order a b n r)
       = map_option (\<lambda>m. m (p + i)) (range_transform_fp_usm F order' a b n p mem)
    \<and> range_transform_fp F order a b n r \<noteq> None
    \<and> map_option (\<lambda>res. res ! i) (range_transform_fp_accurate F order a b n r)
       = map_option (\<lambda>m. m (p + i)) (range_transform_fp_accurate_usm F order' a b n p mem)
    \<and> range_transform_fp_accurate F order a b n r \<noteq> None
    \<and> map_option (\<lambda>res. res out ! i) (range_transform_int order ia ib n inb out bufs)
       = map_option (\<lambda>m. m (outp + i)) (range_transform_int_usm order' ia ib n inp outp umem)
    \<and> (ia \<noteq> ib \<longrightarrow> range_transform_int order ia ib n inb out bufs \<noteq> None)
    \<and> map_option (\<lambda>res. res out ! i) (sample_bernoulli_from_uniform order q n inb out bufs)
       = map_option (\<lambda>m. m (outp + i))
           (sample_bernoulli_from_uniform_usm order' q n inp outp umem)
    \<and> sample_bernoulli_from_uniform order q n inb out bufs \<noteq> None"
proof -
  have ir: "i < length r" and io: "i < length (bufs out)" using assms(1,4,5,8) by simp_all
  have mi: "mem (p + i) = r ! i" and ui: "umem (inp + i) = bufs inb ! i"
    using assms(4,6,10) by simp_all
  have fp: "map_option (\<lambda>res. res ! i) (range_transform_fp F order a b n r)
       = map_option (\<lambda>m. m (p + i)) (range_transform_fp_usm F order' a b n p mem)
    \<and> range_transform_fp F order a b n r \<noteq> None"
    using range_transform_fp_run [OF assms(1,2,5), of F a b]
      range_transform_fp_usm_run [OF assms(1,3), of F a b p mem] ir assms(4) mi
    by auto
  have acc: "map_option (\<lambda>res. res ! i) (range_transform_fp_accurate F order a b n r)
       = map_option (\<lambda>m. m (p + i)) (range_transform_fp_accurate_usm F order' a b n p mem)
    \<and> range_transform_fp_accurate F order a b n r \<noteq> None"
    using range_transform_fp_accurate_run [OF assms(1,2,5), of F a b]
      range_transform_fp_accurate_usm_run [OF assms(1,3), of F a b p mem] ir assms(4) mi
    by auto
  have int: "map_option (\<lambda>res. res out ! i) (range_transform_int order ia ib n inb out bufs)
       = map_option (\<lambda>m. m (outp + i)) (range_transform_int_usm order' ia ib n inp outp umem)
    \<and> (ia \<noteq> ib \<longrightarrow> range_transform_int order ia ib n inb out bufs \<noteq> None)"
  proof (cases "ia = ib")
    case True
    have "0 < n" using assms(4) by simp
    then show ?thesis using True by (simp add: range_transform_int_same_bounds)
  next
    case False
    show ?thesis
      using range_transform_int_run [OF assms(1,2,7,8) False]
        range_transform_int_usm_run [OF assms(1,3,9) False, of umem] io assms(4) ui
      by auto
  qed
  have bern: "map_option (\<lambda>res. res out ! i) (sample_bernoulli_from_uniform order q n inb out bufs)
       = map_option (\<lambda>m. m (outp + i))
           (sample_bernoulli_from_uniform_usm order' q n inp outp umem)
    \<and> sample_bernoulli_from_uniform order q n inb out bufs \<noteq> None"
    using sample_bernoulli_from_uniform_run [OF assms(1,2,7,8), of q]
      sample_bernoulli_from_uniform_usm_run [OF assms(1,3,9), of q umem] io assms(4) ui
    by auto
  show ?thesis using fp acc int bern by (intro conjI) (elim conjE, assumption)+
qed


theorem buffer_and_usm_variants_agree_witness:
  "map_option (\<lambda>res. res ! 2)
     (range_transform_fp binary32 [2, 0, 1] 0x3F800000 0x40000000 3
        [0x3F7FFFFF, 0x3E800000, 0x3F000000 :: 32 word])
     = map_option (\<lambda>m. m 6)
         (range_transform_fp_usm binary32 [1, 2, 0] 0x3F800000 0x40000000 3 4
            (\<lambda>x. if x = 4 then 0x3F7FFFFF else if x = 5 then 0x3E800000 else 0x3F000000))
   \<and> map_option (\<lambda>res. res ! 2)
     (range_transform_fp_accurate binary32 [2, 0, 1] 0x3F800000 0x40000000 3
        [0x3F7FFFFF, 0x3E800000, 0x3F000000 :: 32 word])
     = map_option (\<lambda>m. m 6)
         (range_transform_fp_accurate_usm binary32 [1, 2, 0] 0x3F800000 0x40000000 3 4
            (\<lambda>x. if x = 4 then 0x3F7FFFFF else if x = 5 then 0x3E800000 else 0x3F000000))
   \<and> map_option (\<lambda>res. res 1 ! 2)
     (range_transform_int [2, 0, 1] 10 20 3 0 1 (\<lambda>k. if k = 0 then [5, 17, 33] else [0, 0, 0]))
     = map_option (\<lambda>m. m 5)
         (range_transform_int_usm [1, 2, 0] 10 20 3 0 3
            (\<lambda>x. if x = 0 then 5 else if x = 1 then 17 else 33))
   \<and> range_transform_int [2, 0, 1] 10 20 3 0 1 (\<lambda>k. if k = 0 then [5, 17, 33] else [0, 0, 0])
     \<noteq> None
   \<and> map_option (\<lambda>res. res 1 ! 2)
     (sample_bernoulli_from_uniform [2, 0, 1] 0x3E99999A 3 0 1
        (\<lambda>k. if k = 0 then [5, 17, 33] else [0, 0, 0]))
     = map_option (\<lambda>m. m 5)
         (sample_bernoulli_from_uniform_usm [1, 2, 0] 0x3E99999A 3 0 3
            (\<lambda>x. if x = 0 then 5 else if x = 1 then 17 else 33))"
proof -
  let ?r = "[0x3F7FFFFF, 0x3E800000, 0x3F000000 :: 32 word]"
  let ?m = "\<lambda>x::nat. if x = 4 then 0x3F7FFFFF else if x = 5 then 0x3E800000
              else (0x3F000000 :: 32 word)"
  let ?B = "\<lambda>k::nat. if k = 0 then [5, 17, 33] else [0, 0, 0 :: 32 word]"
  let ?M = "\<lambda>x::nat. if x = 0 then 5 else if x = 1 then 17 else (33 :: 32 word)"
  have h1: "(0::int) \<le> 3" by simp
  have h2: "schedule 3 [2, 0, 1]" "schedule 3 [1, 2, 0]" by code_simp+
  have h3: "2 < nat 3" "(3::int) \<le> int (length ?r)" by simp_all
  have h4: "\<forall>j < nat 3. ?m (4 + j) = ?r ! j"
    by (simp add: numeral_3_eq_3 less_Suc_eq)
  have h5: "(3::int) \<le> int (length (?B 0))" "(3::int) \<le> int (length (?B 1))"
    "usm_compatible 0 3 3"
    by (simp_all add: usm_compatible_def)
  have h6: "\<forall>j < nat 3. ?M (0 + j) = ?B 0 ! j"
    by (simp add: numeral_3_eq_3 less_Suc_eq)
  have ne: "(10 :: 32 word) \<noteq> 20" by simp
  from buffer_and_usm_variants_agree [where F = binary32 and a = "0x3F800000"
      and b = "0x40000000" and r = ?r and mem = ?m and p = 4 and bufs = ?B and inb = 0
      and out = 1 and inp = 0 and outp = 3 and umem = ?M and ia = 10 and ib = 20
      and q = "0x3E99999A" and i = 2, OF h1 h2 h3 h4 h5 h6] ne
  show ?thesis by (simp del: One_nat_def)
qed

text \<open>
  Claim C9. For every transform, either variant and every index \<open>i\<close> below \<open>n\<close>,
  output element \<open>i\<close> is a function of input element \<open>i\<close> and the scalar
  parameters only: two runs whose inputs agree at \<open>i\<close>, whatever they hold at the
  other indices and in whatever order the work-items run, produce the same output
  element \<open>i\<close>.
\<close>

theorem output_depends_only_on_own_input:
  assumes "0 \<le> n" and "schedule n order" and "schedule n order'" and "i < nat n"
    and "n \<le> int (length r)" and "n \<le> int (length r')" and "r ! i = r' ! i"
    and "mem (p + i) = mem' (p + i)"
    and "n \<le> int (length (bufs inb))" and "n \<le> int (length (bufs out))"
    and "n \<le> int (length (bufs' inb))" and "n \<le> int (length (bufs' out))"
    and "bufs inb ! i = bufs' inb ! i"
    and "usm_compatible inp outp n" and "umem (inp + i) = umem' (inp + i)"
  shows "map_option (\<lambda>res. res ! i) (range_transform_fp F order a b n r)
       = map_option (\<lambda>res. res ! i) (range_transform_fp F order' a b n r')
    \<and> map_option (\<lambda>m. m (p + i)) (range_transform_fp_usm F order a b n p mem)
       = map_option (\<lambda>m. m (p + i)) (range_transform_fp_usm F order' a b n p mem')
    \<and> map_option (\<lambda>res. res ! i) (range_transform_fp_accurate F order a b n r)
       = map_option (\<lambda>res. res ! i) (range_transform_fp_accurate F order' a b n r')
    \<and> map_option (\<lambda>m. m (p + i)) (range_transform_fp_accurate_usm F order a b n p mem)
       = map_option (\<lambda>m. m (p + i)) (range_transform_fp_accurate_usm F order' a b n p mem')
    \<and> map_option (\<lambda>res. res out ! i) (range_transform_int order ia ib n inb out bufs)
       = map_option (\<lambda>res. res out ! i) (range_transform_int order' ia ib n inb out bufs')
    \<and> map_option (\<lambda>m. m (outp + i)) (range_transform_int_usm order ia ib n inp outp umem)
       = map_option (\<lambda>m. m (outp + i)) (range_transform_int_usm order' ia ib n inp outp umem')
    \<and> map_option (\<lambda>res. res out ! i) (sample_bernoulli_from_uniform order q n inb out bufs)
       = map_option (\<lambda>res. res out ! i) (sample_bernoulli_from_uniform order' q n inb out bufs')
    \<and> map_option (\<lambda>m. m (outp + i))
         (sample_bernoulli_from_uniform_usm order q n inp outp umem)
       = map_option (\<lambda>m. m (outp + i))
         (sample_bernoulli_from_uniform_usm order' q n inp outp umem')
    \<and> range_transform_fp F order a b n r \<noteq> None
    \<and> range_transform_fp_usm F order a b n p mem \<noteq> None
    \<and> range_transform_fp_accurate F order a b n r \<noteq> None
    \<and> range_transform_fp_accurate_usm F order a b n p mem \<noteq> None
    \<and> (ia \<noteq> ib \<longrightarrow> range_transform_int order ia ib n inb out bufs \<noteq> None
          \<and> range_transform_int_usm order ia ib n inp outp umem \<noteq> None)
    \<and> sample_bernoulli_from_uniform order q n inb out bufs \<noteq> None
    \<and> sample_bernoulli_from_uniform_usm order q n inp outp umem \<noteq> None"
proof -
  have ir: "i < length r" "i < length r'" using assms(1,4,5,6) by simp_all
  have io: "i < length (bufs out)" "i < length (bufs' out)" using assms(1,4,10,12) by simp_all
  note i = assms(4)
  have fp: "map_option (\<lambda>res. res ! i) (range_transform_fp F order a b n r)
       = map_option (\<lambda>res. res ! i) (range_transform_fp F order' a b n r')
    \<and> range_transform_fp F order a b n r \<noteq> None"
    using range_transform_fp_run [OF assms(1,2,5), of F a b]
      range_transform_fp_run [OF assms(1,3,6), of F a b] ir i assms(7)
    by auto
  have fpu: "map_option (\<lambda>m. m (p + i)) (range_transform_fp_usm F order a b n p mem)
       = map_option (\<lambda>m. m (p + i)) (range_transform_fp_usm F order' a b n p mem')
    \<and> range_transform_fp_usm F order a b n p mem \<noteq> None"
    using range_transform_fp_usm_run [OF assms(1,2), of F a b p mem]
      range_transform_fp_usm_run [OF assms(1,3), of F a b p mem'] i assms(8)
    by auto
  have acc: "map_option (\<lambda>res. res ! i) (range_transform_fp_accurate F order a b n r)
       = map_option (\<lambda>res. res ! i) (range_transform_fp_accurate F order' a b n r')
    \<and> range_transform_fp_accurate F order a b n r \<noteq> None"
    using range_transform_fp_accurate_run [OF assms(1,2,5), of F a b]
      range_transform_fp_accurate_run [OF assms(1,3,6), of F a b] ir i assms(7)
    by auto
  have accu: "map_option (\<lambda>m. m (p + i)) (range_transform_fp_accurate_usm F order a b n p mem)
       = map_option (\<lambda>m. m (p + i)) (range_transform_fp_accurate_usm F order' a b n p mem')
    \<and> range_transform_fp_accurate_usm F order a b n p mem \<noteq> None"
    using range_transform_fp_accurate_usm_run [OF assms(1,2), of F a b p mem]
      range_transform_fp_accurate_usm_run [OF assms(1,3), of F a b p mem'] i assms(8)
    by auto
  have int: "map_option (\<lambda>res. res out ! i) (range_transform_int order ia ib n inb out bufs)
       = map_option (\<lambda>res. res out ! i) (range_transform_int order' ia ib n inb out bufs')
    \<and> map_option (\<lambda>m. m (outp + i)) (range_transform_int_usm order ia ib n inp outp umem)
       = map_option (\<lambda>m. m (outp + i)) (range_transform_int_usm order' ia ib n inp outp umem')
    \<and> (ia \<noteq> ib \<longrightarrow> range_transform_int order ia ib n inb out bufs \<noteq> None
          \<and> range_transform_int_usm order ia ib n inp outp umem \<noteq> None)"
  proof (cases "ia = ib")
    case True
    have "0 < n" using i by simp
    then show ?thesis using True by (simp add: range_transform_int_same_bounds)
  next
    case False
    have "map_option (\<lambda>res. res out ! i) (range_transform_int order ia ib n inb out bufs)
       = map_option (\<lambda>res. res out ! i) (range_transform_int order' ia ib n inb out bufs')
      \<and> range_transform_int order ia ib n inb out bufs \<noteq> None"
      using range_transform_int_run [OF assms(1,2,9,10) False]
        range_transform_int_run [OF assms(1,3,11,12) False] io i assms(13)
      by auto
    moreover have "map_option (\<lambda>m. m (outp + i)) (range_transform_int_usm order ia ib n inp outp umem)
       = map_option (\<lambda>m. m (outp + i)) (range_transform_int_usm order' ia ib n inp outp umem')
      \<and> range_transform_int_usm order ia ib n inp outp umem \<noteq> None"
      using range_transform_int_usm_run [OF assms(1,2,14) False, of umem]
        range_transform_int_usm_run [OF assms(1,3,14) False, of umem'] i assms(15)
      by auto
    ultimately show ?thesis by blast
  qed
  have bern: "map_option (\<lambda>res. res out ! i) (sample_bernoulli_from_uniform order q n inb out bufs)
       = map_option (\<lambda>res. res out ! i) (sample_bernoulli_from_uniform order' q n inb out bufs')
    \<and> sample_bernoulli_from_uniform order q n inb out bufs \<noteq> None"
    using sample_bernoulli_from_uniform_run [OF assms(1,2,9,10), of q]
      sample_bernoulli_from_uniform_run [OF assms(1,3,11,12), of q] io i assms(13)
    by auto
  have bernu: "map_option (\<lambda>m. m (outp + i))
         (sample_bernoulli_from_uniform_usm order q n inp outp umem)
       = map_option (\<lambda>m. m (outp + i))
         (sample_bernoulli_from_uniform_usm order' q n inp outp umem')
    \<and> sample_bernoulli_from_uniform_usm order q n inp outp umem \<noteq> None"
    using sample_bernoulli_from_uniform_usm_run [OF assms(1,2,14), of q umem]
      sample_bernoulli_from_uniform_usm_run [OF assms(1,3,14), of q umem'] i assms(15)
    by auto
  show ?thesis
    using fp fpu acc accu int bern bernu by (intro conjI) (elim conjE, assumption)+
qed

theorem output_depends_only_on_own_input_witness:
  "map_option (\<lambda>res. res ! 1)
     (range_transform_fp binary32 [2, 0, 1] 0 0x41200000 3 [0, 0x3E800000, 0x3F000000 :: 32 word])
     = map_option (\<lambda>res. res ! 1)
     (range_transform_fp binary32 [1, 2, 0] 0 0x41200000 3 [0x3F7FFFFF, 0x3E800000, 0, 0])
   \<and> map_option (\<lambda>m. m 5)
     (range_transform_fp_usm binary32 [2, 0, 1] 0 0x41200000 3 4
        (\<lambda>x. if x = 5 then 0x3E800000 else (0 :: 32 word)))
     = map_option (\<lambda>m. m 5)
     (range_transform_fp_usm binary32 [1, 2, 0] 0 0x41200000 3 4
        (\<lambda>x. if x = 5 then 0x3E800000 else 0x3F7FFFFF))
   \<and> map_option (\<lambda>res. res ! 1)
     (range_transform_fp_accurate binary32 [2, 0, 1] 0 0x41200000 3
        [0, 0x3E800000, 0x3F000000 :: 32 word])
     = map_option (\<lambda>res. res ! 1)
     (range_transform_fp_accurate binary32 [1, 2, 0] 0 0x41200000 3
        [0x3F7FFFFF, 0x3E800000, 0, 0])
   \<and> map_option (\<lambda>m. m 5)
     (range_transform_fp_accurate_usm binary32 [2, 0, 1] 0 0x41200000 3 4
        (\<lambda>x. if x = 5 then 0x3E800000 else (0 :: 32 word)))
     = map_option (\<lambda>m. m 5)
     (range_transform_fp_accurate_usm binary32 [1, 2, 0] 0 0x41200000 3 4
        (\<lambda>x. if x = 5 then 0x3E800000 else 0x3F7FFFFF))
   \<and> map_option (\<lambda>res. res 1 ! 1)
     (range_transform_int [2, 0, 1] 10 20 3 0 1 (\<lambda>k. if k = 0 then [5, 17, 33] else [0, 0, 0]))
     = map_option (\<lambda>res. res 1 ! 1)
     (range_transform_int [1, 2, 0] 10 20 3 0 1 (\<lambda>k. if k = 0 then [99, 17, 0] else [1, 2, 3, 4]))
   \<and> map_option (\<lambda>m. m 4)
     (range_transform_int_usm [2, 0, 1] 10 20 3 0 3 (\<lambda>x. if x = 1 then 17 else 5))
     = map_option (\<lambda>m. m 4)
     (range_transform_int_usm [1, 2, 0] 10 20 3 0 3 (\<lambda>x. if x = 1 then 17 else 99))
   \<and> map_option (\<lambda>res. res 1 ! 1)
     (sample_bernoulli_from_uniform [2, 0, 1] 0x3E99999A 3 0 1
        (\<lambda>k. if k = 0 then [5, 17, 33] else [0, 0, 0]))
     = map_option (\<lambda>res. res 1 ! 1)
     (sample_bernoulli_from_uniform [1, 2, 0] 0x3E99999A 3 0 1
        (\<lambda>k. if k = 0 then [99, 17, 0] else [1, 2, 3, 4]))
   \<and> map_option (\<lambda>m. m 4)
     (sample_bernoulli_from_uniform_usm [2, 0, 1] 0x3E99999A 3 0 3
        (\<lambda>x. if x = 1 then 17 else 5))
     = map_option (\<lambda>m. m 4)
     (sample_bernoulli_from_uniform_usm [1, 2, 0] 0x3E99999A 3 0 3
        (\<lambda>x. if x = 1 then 17 else 99))
   \<and> range_transform_int [2, 0, 1] 10 20 3 0 1 (\<lambda>k. if k = 0 then [5, 17, 33] else [0, 0, 0])
     \<noteq> None"
proof -
  let ?r = "[0, 0x3E800000, 0x3F000000 :: 32 word]"
  let ?r' = "[0x3F7FFFFF, 0x3E800000, 0, 0 :: 32 word]"
  let ?m = "\<lambda>x::nat. if x = 5 then 0x3E800000 else (0 :: 32 word)"
  let ?m' = "\<lambda>x::nat. if x = 5 then 0x3E800000 else (0x3F7FFFFF :: 32 word)"
  let ?B = "\<lambda>k::nat. if k = 0 then [5, 17, 33] else [0, 0, 0 :: 32 word]"
  let ?B' = "\<lambda>k::nat. if k = 0 then [99, 17, 0] else [1, 2, 3, 4 :: 32 word]"
  let ?M = "\<lambda>x::nat. if x = 1 then 17 else (5 :: 32 word)"
  let ?M' = "\<lambda>x::nat. if x = 1 then 17 else (99 :: 32 word)"
  have h1: "(0::int) \<le> 3" by simp
  have h2: "schedule 3 [2, 0, 1]" "schedule 3 [1, 2, 0]" by code_simp+
  have h3: "1 < nat 3" "(3::int) \<le> int (length ?r)" "(3::int) \<le> int (length ?r')"
    "?r ! 1 = ?r' ! 1" "?m (4 + 1) = ?m' (4 + 1)"
    "(3::int) \<le> int (length (?B 0))" "(3::int) \<le> int (length (?B 1))"
    "(3::int) \<le> int (length (?B' 0))" "(3::int) \<le> int (length (?B' 1))"
    "?B 0 ! 1 = ?B' 0 ! 1" "usm_compatible 0 3 3" "?M (0 + 1) = ?M' (0 + 1)"
    by (simp_all add: usm_compatible_def)
  have ne: "(10 :: 32 word) \<noteq> 20" by simp
  from output_depends_only_on_own_input [where F = binary32 and a = 0
      and b = "0x41200000" and r = ?r and r' = ?r' and mem = ?m and mem' = ?m' and p = 4
      and bufs = ?B and bufs' = ?B' and inb = 0 and out = 1 and inp = 0 and outp = 3
      and umem = ?M and umem' = ?M' and ia = 10 and ib = 20 and q = "0x3E99999A" and i = 1,
      OF h1 h2 h3] ne
  show ?thesis by simp
qed

text \<open>
  Claim C10. The integer range transform and the Bernoulli transform do not modify
  their input when the output is distinct from it: in the buffer variants the input
  buffer, a buffer other than the output buffer, has the same contents after the
  call; in the USM variants, with input and output arrays that do not overlap, every
  input cell below \<open>n\<close> holds the value it held before.
\<close>

theorem input_not_modified:
  assumes "0 \<le> n" and "schedule n order" and "schedule n order'"
    and "n \<le> int (length (bufs inb))" and "n \<le> int (length (bufs out))"
    and "inb \<noteq> out" and "usm_disjoint inp outp n" and "a \<noteq> b" and "j < nat n"
  shows "\<exists>res mem' bres bmem'.
      range_transform_int order a b n inb out bufs = Some res
    \<and> res inb = bufs inb
    \<and> range_transform_int_usm order' a b n inp outp mem = Some mem'
    \<and> mem' (inp + j) = mem (inp + j)
    \<and> sample_bernoulli_from_uniform order q n inb out bufs = Some bres
    \<and> bres inb = bufs inb
    \<and> sample_bernoulli_from_uniform_usm order' q n inp outp mem = Some bmem'
    \<and> bmem' (inp + j) = mem (inp + j)"
proof -
  have c: "usm_compatible inp outp n" using assms(7) by (rule usm_disjoint_compatible)
  have x: "inp + j < outp \<or> outp + nat n \<le> inp + j"
    using assms(7,9) by (auto simp: usm_disjoint_def)
  obtain res where res: "range_transform_int order a b n inb out bufs = Some res"
    and fr: "\<forall>k. k \<noteq> out \<longrightarrow> res k = bufs k"
    using range_transform_int_run [OF assms(1,2,4,5,8)] by blast
  obtain mem' where mem': "range_transform_int_usm order' a b n inp outp mem = Some mem'"
    and fm: "\<forall>x. x < outp \<or> outp + nat n \<le> x \<longrightarrow> mem' x = mem x"
    using range_transform_int_usm_run [OF assms(1,3) c assms(8)] by blast
  obtain bres where bres: "sample_bernoulli_from_uniform order q n inb out bufs = Some bres"
    and bfr: "\<forall>k. k \<noteq> out \<longrightarrow> bres k = bufs k"
    using sample_bernoulli_from_uniform_run [OF assms(1,2,4,5)] by blast
  obtain bmem' where bmem': "sample_bernoulli_from_uniform_usm order' q n inp outp mem = Some bmem'"
    and bfm: "\<forall>x. x < outp \<or> outp + nat n \<le> x \<longrightarrow> bmem' x = mem x"
    using sample_bernoulli_from_uniform_usm_run [OF assms(1,3) c] by blast
  have "res inb = bufs inb" "bres inb = bufs inb" using fr bfr assms(6) by simp_all
  moreover have "mem' (inp + j) = mem (inp + j)" "bmem' (inp + j) = mem (inp + j)"
    using fm bfm x by blast+
  ultimately show ?thesis using res mem' bres bmem' by blast
qed


theorem input_not_modified_witness:
  "\<exists>res mem' bres bmem'.
      range_transform_int [2, 0, 1] 10 20 3 0 1 (\<lambda>k. if k = 0 then [5, 17, 33] else [0, 0, 0])
        = Some res
    \<and> res 0 = [5, 17, 33]
    \<and> range_transform_int_usm [1, 2, 0] 10 20 3 4 0
        (\<lambda>x. if x = 4 then 5 else if x = 5 then 17 else 33) = Some mem'
    \<and> mem' 6 = 33
    \<and> sample_bernoulli_from_uniform [2, 0, 1] 0x3E99999A 3 0 1
        (\<lambda>k. if k = 0 then [5, 17, 33] else [0, 0, 0]) = Some bres
    \<and> bres 0 = [5, 17, 33]
    \<and> sample_bernoulli_from_uniform_usm [1, 2, 0] 0x3E99999A 3 4 0
        (\<lambda>x. if x = 4 then 5 else if x = 5 then 17 else 33) = Some bmem'
    \<and> bmem' 6 = 33"
proof -
  let ?B = "\<lambda>k::nat. if k = 0 then [5, 17, 33] else [0, 0, 0 :: 32 word]"
  let ?M = "\<lambda>x::nat. if x = 4 then 5 else if x = 5 then 17 else (33 :: 32 word)"
  have h1: "(0::int) \<le> 3" by simp
  have h2: "schedule 3 [2, 0, 1]" "schedule 3 [1, 2, 0]" by code_simp+
  have h3: "(3::int) \<le> int (length (?B 0))" "(3::int) \<le> int (length (?B 1))"
    "(0::nat) \<noteq> 1" "usm_disjoint 4 0 3" "(10 :: 32 word) \<noteq> 20" "2 < nat 3"
    by (simp_all add: usm_disjoint_def)
  from input_not_modified [where bufs = ?B and inb = 0 and out = 1 and inp = 4 and outp = 0
      and mem = ?M and a = 10 and b = 20 and q = "0x3E99999A" and j = 2, OF h1 h2 h3]
  show ?thesis by simp
qed

end
